theory Spec2Isabelle
  imports Main "HOL-Library.Multiset"
begin

section \<open>Nodes and the merge primitive (skew\_heap\_impl.hpp)\<close>

text \<open>
  A \<^verbatim>\<open>Node*\<close> is either \<^verbatim>\<open>nullptr\<close> or the address of a node that holds a key and
  two child links. Child links are ownership-exclusive (a node has one parent and belongs
  to one heap), so the pointer structure below a root is a tree, and a \<^verbatim>\<open>Node*\<close> is
  modelled by the tree it points to. Every node keeps its address: it is the handle
  that \<^verbatim>\<open>pop\<close> and \<^verbatim>\<open>clear\<close> pass to the pool.
\<close>

type_synonym addr = nat

datatype 'a Node = Null | Node (addr: addr) (key: 'a) (left: "'a Node") (right: "'a Node")

text \<open>Assignments through a node pointer: \<^verbatim>\<open>a->right = r\<close> and
  \<^verbatim>\<open>std::swap(a->left, a->right)\<close>. Neither is ever reached with a null pointer.\<close>

fun set_right :: "'a Node \<Rightarrow> 'a Node \<Rightarrow> 'a Node" where
  "set_right (Node p k l r) r' = Node p k l r'"
| "set_right Null r' = Null"

fun swap_children :: "'a Node \<Rightarrow> 'a Node" where
  "swap_children (Node p k l r) = Node p k r l"
| "swap_children Null = Null"

fun nodes :: "'a Node \<Rightarrow> nat" where
  "nodes Null = 0"
| "nodes (Node p k l r) = Suc (nodes l + nodes r)"

lemma nodes_right_less: "a \<noteq> Null \<Longrightarrow> nodes (right a) < nodes a"
  by (cases a) auto

text \<open>
  \<^verbatim>\<open>merge_nodes(a, b, cmp)\<close>, statement by statement:
  \<^verbatim>\<open>
    if (!a) return b;
    if (!b) return a;
    if (cmp(b->key, a->key)) std::swap(a, b);
    a->right = merge_nodes(a->right, b, cmp);
    std::swap(a->left, a->right);
    return a;
  \<close>
\<close>

function merge_nodes :: "('a \<Rightarrow> 'a \<Rightarrow> bool) \<Rightarrow> 'a Node \<Rightarrow> 'a Node \<Rightarrow> 'a Node" where
  "merge_nodes cmp a b =
     (if a = Null then b
      else if b = Null then a
      else let swap = cmp (key b) (key a);
               a1 = (if swap then b else a);
               b1 = (if swap then a else b);
               a2 = set_right a1 (merge_nodes cmp (right a1) b1);
               a3 = swap_children a2
           in a3)"
  by pat_completeness auto
termination
  by (relation "measure (\<lambda>(cmp, a, b). nodes a + nodes b)")
     (auto simp: nodes_right_less add.commute add_less_mono1)

declare merge_nodes.simps [simp del]

text \<open>
  The meld as the specification words it (steps 1 to 5 of the core merge primitive):
  an absent tree gives the other one; otherwise the root that the comparator puts first
  stays on top, the other tree is merged into its right subtree, and its children are
  exchanged.
\<close>

function skew_meld :: "('a \<Rightarrow> 'a \<Rightarrow> bool) \<Rightarrow> 'a Node \<Rightarrow> 'a Node \<Rightarrow> 'a Node" where
  "skew_meld cmp Null b = b"
| "skew_meld cmp a Null = a"
| "skew_meld cmp (Node pa ka la ra) (Node pb kb lb rb) =
     (if cmp kb ka
      then Node pb kb (skew_meld cmp rb (Node pa ka la ra)) lb
      else Node pa ka (skew_meld cmp ra (Node pb kb lb rb)) la)"
  by pat_completeness auto
termination
  by (relation "measure (\<lambda>(cmp, a, b). nodes a + nodes b)") auto

lemma merge_nodes_Null [simp]:
  "merge_nodes cmp Null b = b" "merge_nodes cmp a Null = a"
  by (cases a; simp add: merge_nodes.simps)+

lemma merge_nodes_Node:
  "merge_nodes cmp (Node pa ka la ra) (Node pb kb lb rb) =
     (if cmp kb ka
      then Node pb kb (merge_nodes cmp rb (Node pa ka la ra)) lb
      else Node pa ka (merge_nodes cmp ra (Node pb kb lb rb)) la)"
  by (subst merge_nodes.simps) simp

text \<open>Induction along the calls of \<^verbatim>\<open>merge_nodes\<close>.\<close>

lemma meld_induct [case_names left_null right_null nodes]:
  assumes "\<And>b. P Null b"
    and "\<And>a. P a Null"
    and "\<And>pa ka la ra pb kb lb rb.
           (cmp kb ka \<Longrightarrow> P rb (Node pa ka la ra)) \<Longrightarrow>
           (\<not> cmp kb ka \<Longrightarrow> P ra (Node pb kb lb rb)) \<Longrightarrow>
           P (Node pa ka la ra) (Node pb kb lb rb)"
  shows "P a b"
proof (induction "nodes a + nodes b" arbitrary: a b rule: less_induct)
  case less
  show ?case
  proof (cases a)
    case Null
    then show ?thesis by (simp add: assms(1))
  next
    case a: (Node pa ka la ra)
    show ?thesis
    proof (cases b)
      case Null
      then show ?thesis by (simp add: assms(2))
    next
      case b: (Node pb kb lb rb)
      have "P rb (Node pa ka la ra)"
        by (rule less) (simp add: a b)
      moreover have "P ra (Node pb kb lb rb)"
        by (rule less) (simp add: a b)
      ultimately show ?thesis
        unfolding a b by (intro assms(3))
    qed
  qed
qed

text \<open>
  C2. \<^verbatim>\<open>merge_nodes\<close> is the specified skew-heap meld: for every comparator and every
  two trees the function of the source returns what the five steps of the specification
  describe.
\<close>

theorem merge_nodes_is_skew_meld: "merge_nodes cmp a b = skew_meld cmp a b"
  by (induction cmp a b rule: skew_meld.induct) (simp_all add: merge_nodes_Node)

section \<open>Memory and counters\<close>

text \<open>
  The system allocator hands out fresh storage: \<open>brk\<close> is the first address never handed
  out, so \<^verbatim>\<open>::operator new[]\<close> for \<open>n\<close> slots returns \<open>brk\<close> and moves it up by \<open>n\<close>,
  and two allocations never overlap. Allocation is taken to succeed (the
  \<^verbatim>\<open>std::bad_alloc\<close> path is outside this model), and storage given back is not handed
  out again. \<open>objs a = Some v\<close> says that a constructed object with value \<open>v\<close> lives at
  address \<open>a\<close>; raw storage is \<open>None\<close>. For heap nodes the value recorded is the key (the
  node's links are the subtrees of the \<^typ>\<open>'a Node\<close> that owns the address).

  \<^verbatim>\<open>std::size_t\<close> counters are natural numbers. \<^verbatim>\<open>sz_\<close> and \<^verbatim>\<open>total_slots_\<close> count nodes
  and slots that exist in memory, so adding to them cannot pass \<open>2^64\<close>. A decrement at
  zero wraps to \<^verbatim>\<open>SIZE_MAX\<close>, and \<^verbatim>\<open>live_\<close>, which such a decrement can leave at
  \<^verbatim>\<open>SIZE_MAX\<close>, wraps to zero on the next increment; both are written out.
\<close>

record 't memory =
  brk :: addr
  objs :: "addr \<rightharpoonup> 't"

definition SIZE_MAX :: nat where
  "SIZE_MAX = 2 ^ 64 - 1"

definition dec_size_t :: "nat \<Rightarrow> nat" where
  "dec_size_t x = (if x = 0 then SIZE_MAX else x - 1)"

definition inc_size_t :: "nat \<Rightarrow> nat" where
  "inc_size_t x = (if x = SIZE_MAX then 0 else x + 1)"

text \<open>What stops a call: a failed \<^verbatim>\<open>assert\<close>, or the dereference of a null pointer
  (undefined behaviour, which no build checks).\<close>

datatype fault = AssertionFailed | NullDeref

section \<open>ObjectPool (object\_pool.hpp)\<close>

text \<open>A member or function that the source names with a trailing underscore
  (\<^verbatim>\<open>free_\<close>, \<^verbatim>\<open>root_\<close>, \<^verbatim>\<open>grow_\<close>) has a prime or no suffix here (\<open>free'\<close>, \<open>root'\<close>,
  \<open>grow\<close>); a name that HOL already uses has a prime too (\<open>count'\<close>, \<open>empty'\<close>, \<open>size'\<close>).\<close>

record Block =
  ptr :: addr
  count' :: nat

record ObjectPool =
  blocks' :: "Block list"
  free' :: "addr list"
  next_block_cap' :: nat
  total_slots' :: nat
  live' :: nat

text \<open>\<^verbatim>\<open>explicit ObjectPool(std::size_t initial_block_capacity = 4096)\<close>\<close>

definition ObjectPool :: "nat \<Rightarrow> ObjectPool" where
  "ObjectPool initial_block_capacity =
     \<lparr>blocks' = [], free' = [], next_block_cap' = initial_block_capacity,
      total_slots' = 0, live' = 0\<rparr>"

text \<open>
  \<^verbatim>\<open>grow_(min_new_slots)\<close>: the \<^verbatim>\<open>while (min_new_slots > 0)\<close> loop. Each round takes a
  block of \<^verbatim>\<open>std::max(next_block_cap_, min_new_slots)\<close> slots, appends the block, pushes
  the addresses \<^verbatim>\<open>mem + i\<close> of its slots on the free list, adds to \<^verbatim>\<open>total_slots_\<close>,
  lowers \<^verbatim>\<open>min_new_slots\<close> and doubles \<^verbatim>\<open>next_block_cap_\<close> while it is below \<open>2^28\<close>.
\<close>

function grow :: "nat \<Rightarrow> ObjectPool \<times> 't memory \<Rightarrow> ObjectPool \<times> 't memory" where
  "grow min_new_slots (p, m) =
     (if min_new_slots > 0 then
        let count = max (next_block_cap' p) min_new_slots;
            mem = brk m;
            m1 = m\<lparr>brk := brk m + count\<rparr>;
            p1 = p\<lparr>blocks' := blocks' p @ [\<lparr>ptr = mem, count' = count\<rparr>]\<rparr>;
            p2 = p1\<lparr>free' := free' p1 @ map (\<lambda>i. mem + i) [0..<count]\<rparr>;
            p3 = p2\<lparr>total_slots' := total_slots' p2 + count\<rparr>;
            min_new_slots' = (if min_new_slots > count then min_new_slots - count else 0);
            p4 = (if next_block_cap' p3 < 2 ^ 28
                  then p3\<lparr>next_block_cap' := next_block_cap' p3 * 2\<rparr> else p3)
        in grow min_new_slots' (p4, m1)
      else (p, m))"
  by pat_completeness auto
termination
  by (relation "measure (\<lambda>(n, s). n)") auto

declare grow.simps [simp del]

text \<open>\<^verbatim>\<open>reserve(n)\<close>: nothing when the free list already holds \<open>n\<close> slots, else
  \<^verbatim>\<open>grow_(n - free_.size())\<close>.\<close>

definition reserve :: "nat \<Rightarrow> ObjectPool \<times> 't memory \<Rightarrow> ObjectPool \<times> 't memory" where
  "reserve n s =
     (case s of (p, m) \<Rightarrow>
        if length (free' p) \<ge> n then s
        else let need = n - length (free' p) in grow need s)"

text \<open>
  \<^verbatim>\<open>create(args...)\<close>: grow by \<^verbatim>\<open>grow_(1)\<close> when the free list is empty, take the slot at
  the back of the free list, construct the object there, count it (\<^verbatim>\<open>++live_\<close>), return its
  address.
  The argument \<open>v\<close> is the object \<^verbatim>\<open>T(args...)\<close> that the placement-new builds.
\<close>

definition create :: "'t \<Rightarrow> ObjectPool \<times> 't memory \<Rightarrow> addr \<times> ObjectPool \<times> 't memory" where
  "create v s =
     (let s1 = (if free' (fst s) = [] then grow 1 s else s);
          p = last (free' (fst s1));
          pool1 = (fst s1)\<lparr>free' := butlast (free' (fst s1))\<rparr>;
          m1 = (snd s1)\<lparr>objs := (objs (snd s1))(p \<mapsto> v)\<rparr>;
          pool2 = pool1\<lparr>live' := inc_size_t (live' pool1)\<rparr>
      in (p, pool2, m1))"

text \<open>\<^verbatim>\<open>destroy(p)\<close>: nothing for a null pointer; otherwise the object is destructed, its
  slot goes on the back of the free list and \<^verbatim>\<open>live_\<close> is decremented.\<close>

fun destroy :: "addr option \<Rightarrow> ObjectPool \<times> 't memory \<Rightarrow> ObjectPool \<times> 't memory" where
  "destroy None s = s"
| "destroy (Some p) (pool, m) =
     (let m1 = m\<lparr>objs := (objs m)(p := None)\<rparr>;
          pool1 = pool\<lparr>free' := free' pool @ [p]\<rparr>;
          pool2 = pool1\<lparr>live' := dec_size_t (live' pool1)\<rparr>
      in (pool2, m1))"

text \<open>An address lies in one of the blocks.\<close>

definition in_blocks :: "Block list \<Rightarrow> addr \<Rightarrow> bool" where
  "in_blocks bs a = list_ex (\<lambda>b. ptr b \<le> a \<and> a < ptr b + count' b) bs"

text \<open>
  \<^verbatim>\<open>release_all()\<close>. \<open>ndebug\<close> says that \<^verbatim>\<open>NDEBUG\<close> is defined (an optimized build); without
  it the \<^verbatim>\<open>assert(live_ == 0)\<close> is compiled in. Then every block goes back to the system
  (whatever was stored in it is gone), and the block list and the free list are cleared;
  \<^verbatim>\<open>next_block_cap_\<close>, \<^verbatim>\<open>total_slots_\<close> and \<^verbatim>\<open>live_\<close> stay as they are.
\<close>

definition release_all :: "bool \<Rightarrow> ObjectPool \<times> 't memory \<Rightarrow> fault + ObjectPool \<times> 't memory" where
  "release_all ndebug s =
     (case s of (p, m) \<Rightarrow>
        if \<not> ndebug \<and> live' p \<noteq> 0 then Inl AssertionFailed
        else let m1 = m\<lparr>objs := (\<lambda>a. if in_blocks (blocks' p) a then None else objs m a)\<rparr>;
                 p1 = p\<lparr>blocks' := []\<rparr>;
                 p2 = p1\<lparr>free' := []\<rparr>
             in Inr (p2, m1))"

definition live :: "ObjectPool \<Rightarrow> nat" where
  "live p = live' p"

definition capacity_slots :: "ObjectPool \<Rightarrow> nat" where
  "capacity_slots p = total_slots' p"

section \<open>Growing the pool\<close>

text \<open>A round of the loop in \<^verbatim>\<open>grow_\<close> takes a block that already covers the demand, so the
  loop body runs once.\<close>

lemma SIZE_MAX_pos: "0 < SIZE_MAX"
  by (simp add: SIZE_MAX_def)

lemma inc_size_t_less: "x < 18446744073709551615 \<Longrightarrow> inc_size_t x = x + 1"
  by (simp add: inc_size_t_def SIZE_MAX_def)

lemma inc_size_t_max: "inc_size_t SIZE_MAX = 0"
  by (simp add: inc_size_t_def)

lemma grow_zero: "grow 0 s = s"
  by (cases s) (simp add: grow.simps)

lemma grow_pos:
  "0 < n \<Longrightarrow>
     grow n (p, m) =
       (p\<lparr>blocks' := blocks' p @ [\<lparr>ptr = brk m, count' = max (next_block_cap' p) n\<rparr>],
          free' := free' p @ map (\<lambda>i. brk m + i) [0..<max (next_block_cap' p) n],
          total_slots' := total_slots' p + max (next_block_cap' p) n,
          next_block_cap' := (if next_block_cap' p < 2 ^ 28 then next_block_cap' p * 2
                              else next_block_cap' p)\<rparr>,
        m\<lparr>brk := brk m + max (next_block_cap' p) n\<rparr>)"
  by (subst grow.simps) (simp add: Let_def grow_zero)

lemma reserve_enough: "n \<le> length (free' (fst s)) \<Longrightarrow> reserve n s = s"
  by (cases s) (simp add: reserve_def)

lemma reserve_grows:
  "length (free' p) < n \<Longrightarrow> reserve n (p, m) = grow (n - length (free' p)) (p, m)"
  by (simp add: reserve_def Let_def)

lemma reserve_free: "n \<le> length (free' (fst (reserve n s)))"
proof (cases s)
  case (Pair p m)
  show ?thesis
  proof (cases "n \<le> length (free' p)")
    case True
    with Pair show ?thesis by (simp add: reserve_enough)
  next
    case False
    then have "0 < n - length (free' p)" by simp
    from grow_pos[OF this, of p m] False Pair show ?thesis
      by (simp add: reserve_grows)
  qed
qed

text \<open>
  C6, as the code has it. After \<^verbatim>\<open>reserve(n)\<close> the free list holds at least \<open>n\<close> slots. When
  it held \<open>n\<close> already the call changes nothing, so a second \<^verbatim>\<open>reserve(n)\<close> right after
  the first allocates nothing. When growth is needed the call allocates exactly one
  block, of \<^verbatim>\<open>max(next_block_cap_, deficit)\<close> slots, all of which go on the free list, and
  \<^verbatim>\<open>next_block_cap_\<close> doubles if it was below \<open>2^28\<close> and stays otherwise.
\<close>

theorem reserve_one_block:
  "n \<le> length (free' (fst (reserve n s))) \<and>
   (n \<le> length (free' (fst s)) \<longrightarrow> reserve n s = s) \<and>
   reserve n (reserve n s) = reserve n s \<and>
   (length (free' (fst s)) < n \<longrightarrow>
      blocks' (fst (reserve n s)) =
        blocks' (fst s) @
          [\<lparr>ptr = brk (snd s), count' = max (next_block_cap' (fst s)) (n - length (free' (fst s)))\<rparr>] \<and>
      length (free' (fst (reserve n s))) =
        length (free' (fst s)) + max (next_block_cap' (fst s)) (n - length (free' (fst s))) \<and>
      next_block_cap' (fst (reserve n s)) =
        (if next_block_cap' (fst s) < 2 ^ 28 then 2 * next_block_cap' (fst s)
         else next_block_cap' (fst s)))"
proof (intro conjI impI)
  show "n \<le> length (free' (fst (reserve n s)))" by (rule reserve_free)
  show "reserve n s = s" if "n \<le> length (free' (fst s))"
    using that by (rule reserve_enough)
  show "reserve n (reserve n s) = reserve n s"
    by (rule reserve_enough) (rule reserve_free)
next
  assume less: "length (free' (fst s)) < n"
  obtain p m where s: "s = (p, m)" by (cases s)
  from less s have pos: "0 < n - length (free' p)" by simp
  note g = grow_pos[OF pos, of p m]
  from less s g show "blocks' (fst (reserve n s)) =
        blocks' (fst s) @
          [\<lparr>ptr = brk (snd s), count' = max (next_block_cap' (fst s)) (n - length (free' (fst s)))\<rparr>]"
    by (simp add: reserve_grows)
  from less s g show "length (free' (fst (reserve n s))) =
        length (free' (fst s)) + max (next_block_cap' (fst s)) (n - length (free' (fst s)))"
    by (simp add: reserve_grows)
  from less s g show "next_block_cap' (fst (reserve n s)) =
        (if next_block_cap' (fst s) < 2 ^ 28 then 2 * next_block_cap' (fst s)
         else next_block_cap' (fst s))"
    by (simp add: reserve_grows)
qed

theorem reserve_one_block_witness:
  "length (free' (fst (ObjectPool 4, \<lparr>brk = 0, objs = (Map.empty :: addr \<rightharpoonup> nat)\<rparr>))) < 10 \<and>
   blocks' (fst (reserve 10 (ObjectPool 4, \<lparr>brk = 0, objs = (Map.empty :: addr \<rightharpoonup> nat)\<rparr>))) =
      [\<lparr>ptr = 0, count' = 10\<rparr>] \<and>
   length (free' (fst (reserve 10 (ObjectPool 4, \<lparr>brk = 0, objs = (Map.empty :: addr \<rightharpoonup> nat)\<rparr>)))) = 10 \<and>
   next_block_cap' (fst (reserve 10 (ObjectPool 4, \<lparr>brk = 0, objs = (Map.empty :: addr \<rightharpoonup> nat)\<rparr>))) = 8 \<and>
   (10 \<le> length (free' (fst (reserve 10 (ObjectPool 4, \<lparr>brk = 0, objs = (Map.empty :: addr \<rightharpoonup> nat)\<rparr>)))) \<and>
    reserve 10 (reserve 10 (ObjectPool 4, \<lparr>brk = 0, objs = (Map.empty :: addr \<rightharpoonup> nat)\<rparr>)) =
      reserve 10 (ObjectPool 4, \<lparr>brk = 0, objs = (Map.empty :: addr \<rightharpoonup> nat)\<rparr>))"
  using reserve_one_block[of 10 "(ObjectPool 4, \<lparr>brk = 0, objs = (Map.empty :: addr \<rightharpoonup> nat)\<rparr>)"]
        reserve_one_block[of 10 "reserve 10 (ObjectPool 4, \<lparr>brk = 0, objs = (Map.empty :: addr \<rightharpoonup> nat)\<rparr>)"]
  by (simp add: ObjectPool_def)

text \<open>
  The claim lets one \<^verbatim>\<open>reserve\<close> call allocate several blocks when the deficit exceeds
  the capacity of the next block. On a pool constructed with block capacity 4,
  \<^verbatim>\<open>reserve(10)\<close> has a deficit of 10 and still allocates a single block.
\<close>

theorem reserve_deficit_over_capacity_counterexample:
  "next_block_cap' (ObjectPool 4) < 10 - length (free' (ObjectPool 4)) \<and>
   length (blocks' (fst (reserve 10 (ObjectPool 4, \<lparr>brk = 0, objs = (Map.empty :: addr \<rightharpoonup> nat)\<rparr>)))) = 1"
  by (simp add: ObjectPool_def reserve_def Let_def grow_pos)

section \<open>Creating objects\<close>

lemma butlast_upt_less: "butlast [m..<n] = [m..<n - 1]"
  by (cases n) auto

lemma create_expand:
  "create v s =
     (let s0 = (if free' (fst s) = [] then grow 1 s else s)
      in (last (free' (fst s0)),
          (fst s0)\<lparr>free' := butlast (free' (fst s0)), live' := inc_size_t (live' (fst s0))\<rparr>,
          (snd s0)\<lparr>objs := (objs (snd s0))(last (free' (fst s0)) \<mapsto> v)\<rparr>))"
  by (simp add: create_def Let_def)

lemma grow_one_nonempty: "free' (fst (grow 1 s)) \<noteq> []"
proof (cases s)
  case (Pair p m)
  have "0 < max (next_block_cap' p) 1" by simp
  then have "[0..<max (next_block_cap' p) 1] \<noteq> []" by (simp del: max_less_iff_conj)
  then show ?thesis using grow_pos[of 1 p m] Pair by simp
qed

lemma create_facts:
  assumes "create v s = (p, pool1, m1)"
  shows "\<exists>s0. s0 = (if free' (fst s) = [] then grow 1 s else s) \<and>
           free' (fst s0) = free' pool1 @ [p] \<and>
           blocks' pool1 = blocks' (fst s0) \<and>
           capacity_slots pool1 = capacity_slots (fst s0) \<and>
           brk m1 = brk (snd s0) \<and>
           live pool1 = inc_size_t (live (fst s)) \<and>
           (live (fst s) < SIZE_MAX \<longrightarrow> live pool1 = live (fst s) + 1) \<and>
           (live (fst s) = SIZE_MAX \<longrightarrow> live pool1 = 0) \<and>
           objs m1 = (objs (snd s))(p \<mapsto> v) \<and>
           (free' (fst s) = [] \<longrightarrow>
              blocks' pool1 =
                blocks' (fst s) @ [\<lparr>ptr = brk (snd s), count' = max (next_block_cap' (fst s)) 1\<rparr>] \<and>
              p = brk (snd s) + (max (next_block_cap' (fst s)) 1 - 1) \<and>
              capacity_slots pool1 = capacity_slots (fst s) + max (next_block_cap' (fst s)) 1) \<and>
           (free' (fst s) \<noteq> [] \<longrightarrow>
              blocks' pool1 = blocks' (fst s) \<and> capacity_slots pool1 = capacity_slots (fst s))"
proof -
  define s0 where "s0 = (if free' (fst s) = [] then grow 1 s else s)"
  have ne: "free' (fst s0) \<noteq> []"
    using grow_one_nonempty[of s] by (auto simp: s0_def)
  from assms have "(last (free' (fst s0)),
          (fst s0)\<lparr>free' := butlast (free' (fst s0)), live' := inc_size_t (live' (fst s0))\<rparr>,
          (snd s0)\<lparr>objs := (objs (snd s0))(last (free' (fst s0)) \<mapsto> v)\<rparr>) = (p, pool1, m1)"
    by (simp only: create_expand Let_def s0_def)
  then have p: "p = last (free' (fst s0))"
    and pool1: "pool1 = (fst s0)\<lparr>free' := butlast (free' (fst s0)), live' := inc_size_t (live' (fst s0))\<rparr>"
    and m1: "m1 = (snd s0)\<lparr>objs := (objs (snd s0))(p \<mapsto> v)\<rparr>"
    by auto
  obtain q m where s: "s = (q, m)" by (cases s)
  have same: "live' (fst s0) = live' (fst s)" "objs (snd s0) = objs (snd s)"
    using grow_pos[of 1 q m] by (simp_all add: s0_def s)
  have "free' (fst s0) = free' pool1 @ [p]"
    using ne by (simp add: pool1 p)
  moreover have "free' (fst s) = [] \<longrightarrow>
              blocks' pool1 =
                blocks' (fst s) @ [\<lparr>ptr = brk (snd s), count' = max (next_block_cap' (fst s)) 1\<rparr>] \<and>
              p = brk (snd s) + (max (next_block_cap' (fst s)) 1 - 1) \<and>
              capacity_slots pool1 = capacity_slots (fst s) + max (next_block_cap' (fst s)) 1"
  proof
    assume e: "free' (fst s) = []"
    have "0 < max (next_block_cap' q) 1" by simp
    then have "last (map (\<lambda>i. brk m + i) [0..<max (next_block_cap' q) 1]) =
        brk m + (max (next_block_cap' q) 1 - 1)"
      by (simp add: last_map del: max_less_iff_conj)
    with e show "blocks' pool1 =
                blocks' (fst s) @ [\<lparr>ptr = brk (snd s), count' = max (next_block_cap' (fst s)) 1\<rparr>] \<and>
              p = brk (snd s) + (max (next_block_cap' (fst s)) 1 - 1) \<and>
              capacity_slots pool1 = capacity_slots (fst s) + max (next_block_cap' (fst s)) 1"
      using grow_pos[of 1 q m]
      by (simp add: pool1 p s0_def s capacity_slots_def)
  qed
  ultimately show ?thesis
    using same
    by (intro exI[of _ s0])
       (simp add: pool1 m1 live_def capacity_slots_def s0_def inc_size_t_def)
qed

text \<open>
  C4, as the code has it. \<^verbatim>\<open>create\<close> first makes sure that the free list is not empty:
  when it is, it grows the pool by \<^verbatim>\<open>grow_(1)\<close>, which brings one block of
  \<^verbatim>\<open>max(next_block_cap_, 1)\<close> slots and raises the capacity by as many; when it is not, the
  blocks and the capacity stay. It then takes exactly one slot \<open>p\<close> off the back of the free
  list, constructs the value at \<open>p\<close> (nothing else in memory changes), increments the live
  count as a \<^verbatim>\<open>std::size_t\<close> (by one below \<^verbatim>\<open>SIZE_MAX\<close>, to zero from \<^verbatim>\<open>SIZE_MAX\<close>) and
  returns \<open>p\<close>.
\<close>

theorem create_takes_free_slot:
  assumes "create v s = (p, pool1, m1)"
  shows "\<exists>s0. s0 = (if free' (fst s) = [] then grow 1 s else s) \<and>
           free' (fst s0) = free' pool1 @ [p] \<and>
           blocks' pool1 = blocks' (fst s0) \<and>
           capacity_slots pool1 = capacity_slots (fst s0) \<and>
           brk m1 = brk (snd s0) \<and>
           live pool1 = inc_size_t (live (fst s)) \<and>
           (live (fst s) < SIZE_MAX \<longrightarrow> live pool1 = live (fst s) + 1) \<and>
           (live (fst s) = SIZE_MAX \<longrightarrow> live pool1 = 0) \<and>
           objs m1 = (objs (snd s))(p \<mapsto> v) \<and>
           (free' (fst s) = [] \<longrightarrow>
              blocks' pool1 =
                blocks' (fst s) @ [\<lparr>ptr = brk (snd s), count' = max (next_block_cap' (fst s)) 1\<rparr>] \<and>
              p = brk (snd s) + (max (next_block_cap' (fst s)) 1 - 1) \<and>
              capacity_slots pool1 = capacity_slots (fst s) + max (next_block_cap' (fst s)) 1) \<and>
           (free' (fst s) \<noteq> [] \<longrightarrow>
              blocks' pool1 = blocks' (fst s) \<and> capacity_slots pool1 = capacity_slots (fst s))"
  using assms by (rule create_facts)

theorem create_takes_free_slot_witness:
  "create (7::nat) (ObjectPool 4, \<lparr>brk = 0, objs = Map.empty\<rparr>) =
     (3, \<lparr>blocks' = [\<lparr>ptr = 0, count' = 4\<rparr>], free' = [0..<3], next_block_cap' = 8,
          total_slots' = 4, live' = 1\<rparr>,
      \<lparr>brk = 4, objs = [3 \<mapsto> 7]\<rparr>) \<and>
   free' (ObjectPool 4) = [] \<and> live (ObjectPool 4) < SIZE_MAX \<and>
   live \<lparr>blocks' = [\<lparr>ptr = 0, count' = 4\<rparr>], free' = [0..<3], next_block_cap' = 8,
          total_slots' = 4, live' = 1\<rparr> = live (ObjectPool 4) + 1 \<and>
   create (8::nat)
     (\<lparr>blocks' = [\<lparr>ptr = 0, count' = 4\<rparr>], free' = [2], next_block_cap' = 8,
       total_slots' = 4, live' = SIZE_MAX\<rparr>, \<lparr>brk = 4, objs = Map.empty\<rparr>) =
     (2, \<lparr>blocks' = [\<lparr>ptr = 0, count' = 4\<rparr>], free' = [], next_block_cap' = 8,
          total_slots' = 4, live' = 0\<rparr>,
      \<lparr>brk = 4, objs = [2 \<mapsto> 8]\<rparr>) \<and>
   free' \<lparr>blocks' = [\<lparr>ptr = 0, count' = 4\<rparr>], free' = [2], next_block_cap' = 8,
       total_slots' = 4, live' = SIZE_MAX\<rparr> \<noteq> [] \<and>
   live \<lparr>blocks' = [\<lparr>ptr = 0, count' = 4\<rparr>], free' = [2], next_block_cap' = 8,
       total_slots' = 4, live' = SIZE_MAX\<rparr> = SIZE_MAX \<and>
   live \<lparr>blocks' = [\<lparr>ptr = 0, count' = 4\<rparr>], free' = [], next_block_cap' = 8,
          total_slots' = 4, live' = 0\<rparr> = 0"
proof -
  define P1 where "P1 = \<lparr>blocks' = [\<lparr>ptr = 0, count' = 4\<rparr>], free' = [0..<3], next_block_cap' = 8,
          total_slots' = 4, live' = 1\<rparr>"
  define Q where "Q = \<lparr>blocks' = [\<lparr>ptr = 0, count' = 4\<rparr>], free' = [2], next_block_cap' = 8,
       total_slots' = 4, live' = SIZE_MAX\<rparr>"
  define Q1 where "Q1 = \<lparr>blocks' = [\<lparr>ptr = 0, count' = 4\<rparr>], free' = [], next_block_cap' = 8,
          total_slots' = 4, live' = 0\<rparr>"
  have c: "create (7::nat) (ObjectPool 4, \<lparr>brk = 0, objs = Map.empty\<rparr>) =
     (3, P1, \<lparr>brk = 4, objs = [3 \<mapsto> 7]\<rparr>)"
    by (simp add: P1_def create_def ObjectPool_def grow_pos Let_def butlast_upt_less
          inc_size_t_less)
  have d: "create (8::nat) (Q, \<lparr>brk = 4, objs = Map.empty\<rparr>) = (2, Q1, \<lparr>brk = 4, objs = [2 \<mapsto> 8]\<rparr>)"
    by (simp add: Q_def Q1_def create_def Let_def inc_size_t_max)
  have e: "free' (ObjectPool 4) = []" "live (ObjectPool 4) < SIZE_MAX"
    by (simp_all add: ObjectPool_def live_def SIZE_MAX_def)
  have f: "free' Q \<noteq> []" "live Q = SIZE_MAX"
    by (simp_all add: Q_def live_def)
  note t1 = create_takes_free_slot[OF c]
  note t2 = create_takes_free_slot[OF d]
  from t1 e(2) have g: "live P1 = live (ObjectPool 4) + 1" by auto
  from t2 f(2) have h: "live Q1 = 0" by auto
  have "create (7::nat) (ObjectPool 4, \<lparr>brk = 0, objs = Map.empty\<rparr>) =
     (3, P1, \<lparr>brk = 4, objs = [3 \<mapsto> 7]\<rparr>) \<and>
   free' (ObjectPool 4) = [] \<and> live (ObjectPool 4) < SIZE_MAX \<and>
   live P1 = live (ObjectPool 4) + 1 \<and>
   create (8::nat) (Q, \<lparr>brk = 4, objs = Map.empty\<rparr>) = (2, Q1, \<lparr>brk = 4, objs = [2 \<mapsto> 8]\<rparr>) \<and>
   free' Q \<noteq> [] \<and> live Q = SIZE_MAX \<and> live Q1 = 0"
    using c d e f g h by (intro conjI)
  then show ?thesis unfolding P1_def Q_def Q1_def .
qed

text \<open>
  The claim has \<^verbatim>\<open>create\<close> grow the pool by one slot's worth when the free list is empty.
  On a pool constructed with block capacity 4, the first \<^verbatim>\<open>create\<close> finds the free list
  empty and raises the capacity from 0 to 4 slots, of which 3 are left on the free list.
\<close>

theorem create_grows_by_block_counterexample:
  "free' (ObjectPool 4) = [] \<and> capacity_slots (ObjectPool 4) = 0 \<and>
   capacity_slots (fst (snd (create (7::nat) (ObjectPool 4, \<lparr>brk = 0, objs = Map.empty\<rparr>)))) = 4 \<and>
   length (free' (fst (snd (create (7::nat) (ObjectPool 4, \<lparr>brk = 0, objs = Map.empty\<rparr>))))) = 3"
  by (simp add: create_def ObjectPool_def grow_pos Let_def butlast_upt_less capacity_slots_def)

section \<open>Programs over a pool\<close>

text \<open>
  A client of a pool calls \<^verbatim>\<open>reserve\<close>, \<^verbatim>\<open>create\<close> and \<^verbatim>\<open>destroy\<close>. The list next to the
  pool state holds the handles that \<^verbatim>\<open>create\<close> has returned and that have not been
  destroyed since: \<^verbatim>\<open>destroy\<close> may be given a null pointer or one of these, and a program
  that passes anything else is outside the contract (\<open>None\<close>). So is a program that asks
  for one more object while \<^verbatim>\<open>SIZE_MAX\<close> of them are outstanding: no address space holds
  that many.
\<close>

datatype 't pool_call = Reserve nat | Create 't | Destroy "addr option"

fun do_pool_call ::
  "'t pool_call \<Rightarrow> (ObjectPool \<times> 't memory) \<times> addr list \<Rightarrow> ((ObjectPool \<times> 't memory) \<times> addr list) option"
where
  "do_pool_call (Reserve n) (s, hs) = Some (reserve n s, hs)"
| "do_pool_call (Create v) (s, hs) =
     (if length hs < SIZE_MAX then (case create v s of (p, s1) \<Rightarrow> Some (s1, p # hs)) else None)"
| "do_pool_call (Destroy None) (s, hs) = Some (destroy None s, hs)"
| "do_pool_call (Destroy (Some p)) (s, hs) =
     (if p \<in> set hs then Some (destroy (Some p) s, remove1 p hs) else None)"

fun pool_run ::
  "'t pool_call list \<Rightarrow> (ObjectPool \<times> 't memory) \<times> addr list \<Rightarrow> ((ObjectPool \<times> 't memory) \<times> addr list) option"
where
  "pool_run [] x = Some x"
| "pool_run (c # cs) x = (case do_pool_call c x of None \<Rightarrow> None | Some x1 \<Rightarrow> pool_run cs x1)"

definition conserved :: "(ObjectPool \<times> 't memory) \<times> addr list \<Rightarrow> bool" where
  "conserved x =
     (capacity_slots (fst (fst x)) = length (free' (fst (fst x))) + live (fst (fst x)) \<and>
      live (fst (fst x)) = length (snd x))"

lemma reserve_conserved:
  "\<exists>d. total_slots' (fst (reserve n s)) = total_slots' (fst s) + d \<and>
       length (free' (fst (reserve n s))) = length (free' (fst s)) + d \<and>
       live' (fst (reserve n s)) = live' (fst s)"
proof (cases s)
  case (Pair p m)
  show ?thesis
  proof (cases "n \<le> length (free' p)")
    case True
    with Pair show ?thesis by (simp add: reserve_enough)
  next
    case False
    then have "0 < n - length (free' p)" by simp
    from grow_pos[OF this, of p m] False Pair show ?thesis
      by (simp add: reserve_grows)
  qed
qed

lemma conserved_call:
  assumes "conserved x" and "do_pool_call c x = Some x1"
  shows "conserved x1"
proof -
  obtain s hs where x: "x = (s, hs)" by (cases x)
  show ?thesis
  proof (cases c)
    case (Reserve n)
    with assms x reserve_conserved[of n s] show ?thesis
      by (auto simp: conserved_def capacity_slots_def live_def)
  next
    case (Create v)
    obtain p pool1 m1 where cr: "create v s = (p, pool1, m1)" by (cases "create v s")
    from create_facts[OF cr] obtain s0 where
      s0: "s0 = (if free' (fst s) = [] then grow 1 s else s)"
      and f: "free' (fst s0) = free' pool1 @ [p]"
      and cap: "capacity_slots pool1 = capacity_slots (fst s0)"
      and lv: "live (fst s) < SIZE_MAX \<longrightarrow> live pool1 = live (fst s) + 1" by blast
    from assms x Create have bound: "length hs < SIZE_MAX" by (auto split: if_splits)
    have "\<exists>d. capacity_slots (fst s0) = capacity_slots (fst s) + d \<and>
        length (free' (fst s0)) = length (free' (fst s)) + d"
    proof (cases "free' (fst s) = []")
      case True
      obtain q m where "s = (q, m)" by (cases s)
      with True s0 grow_pos[of 1 q m] show ?thesis by (simp add: capacity_slots_def)
    next
      case False
      with s0 show ?thesis by simp
    qed
    with assms x Create cr f cap lv bound show ?thesis
      by (auto simp: conserved_def)
  next
    case (Destroy h)
    show ?thesis
    proof (cases h)
      case None
      with assms x Destroy show ?thesis by simp
    next
      case (Some p)
      with assms x Destroy have mem: "p \<in> set hs" and x1: "x1 = (destroy (Some p) s, remove1 p hs)"
        by (auto split: if_splits)
      from mem have "0 < length hs" by (cases hs) auto
      moreover from mem have "length (remove1 p hs) = length hs - 1" by (simp add: length_remove1)
      ultimately show ?thesis
        using assms(1) x x1
        by (cases s) (auto simp: conserved_def capacity_slots_def live_def dec_size_t_def Let_def)
    qed
  qed
qed

lemma conserved_run:
  "conserved x \<Longrightarrow> pool_run cs x = Some x1 \<Longrightarrow> conserved x1"
proof (induction cs arbitrary: x)
  case Nil
  then show ?case by simp
next
  case (Cons c cs)
  then show ?case by (auto split: option.splits dest: conserved_call)
qed

text \<open>
  C9. Slot conservation. A freshly constructed pool has
  \<^verbatim>\<open>capacity_slots() == free_.size() + live()\<close>, and every sequence of \<^verbatim>\<open>reserve\<close>, \<^verbatim>\<open>create\<close>
  and \<^verbatim>\<open>destroy\<close> calls within the contract, started in a state where the equation holds
  and \<^verbatim>\<open>live()\<close> counts the outstanding handles, ends in such a state. A sequence of one
  call shows that every single operation preserves the equation.
\<close>

theorem slot_conservation:
  "capacity_slots (ObjectPool cap) = length (free' (ObjectPool cap)) + live (ObjectPool cap) \<and>
   (capacity_slots p0 = length (free' p0) + live p0 \<and> live p0 = length hs0 \<and>
    pool_run cs ((p0, m0), hs0) = Some ((p, m), hs) \<longrightarrow>
      capacity_slots p = length (free' p) + live p \<and> live p = length hs)"
proof -
  have "capacity_slots (ObjectPool cap) = length (free' (ObjectPool cap)) + live (ObjectPool cap)"
    by (simp add: ObjectPool_def capacity_slots_def live_def)
  moreover have "capacity_slots p = length (free' p) + live p \<and> live p = length hs"
    if "capacity_slots p0 = length (free' p0) + live p0" "live p0 = length hs0"
      "pool_run cs ((p0, m0), hs0) = Some ((p, m), hs)"
  proof -
    from that(1,2) have "conserved ((p0, m0), hs0)" by (simp add: conserved_def)
    from conserved_run[OF this that(3)] show ?thesis by (simp add: conserved_def)
  qed
  ultimately show ?thesis by blast
qed

theorem slot_conservation_witness:
  "\<exists>p m hs.
     pool_run [Reserve 2, Create (7::nat), Create 8, Destroy (Some 3), Destroy None]
       ((ObjectPool 4, \<lparr>brk = 0, objs = Map.empty\<rparr>), []) = Some ((p, m), hs) \<and>
     capacity_slots (ObjectPool 4) = length (free' (ObjectPool 4)) + live (ObjectPool 4) \<and>
     live (ObjectPool 4) = length ([] :: addr list) \<and>
     capacity_slots p = length (free' p) + live p \<and> live p = length hs \<and>
     capacity_slots p = 4 \<and> live p = 1"
proof -
  obtain p m hs where
    r: "pool_run [Reserve 2, Create (7::nat), Create 8, Destroy (Some 3), Destroy None]
       ((ObjectPool 4, \<lparr>brk = 0, objs = Map.empty\<rparr>), []) = Some ((p, m), hs)"
    and v: "capacity_slots p = 4" "live p = 1"
    by (simp add: ObjectPool_def reserve_def create_def grow_pos Let_def butlast_upt_less
          dec_size_t_def inc_size_t_less capacity_slots_def live_def SIZE_MAX_def)
  have i: "capacity_slots (ObjectPool 4) = length (free' (ObjectPool 4)) + live (ObjectPool 4)"
    "live (ObjectPool 4) = length ([] :: addr list)"
    by (simp_all add: ObjectPool_def capacity_slots_def live_def)
  note t = slot_conservation[of 4 "ObjectPool 4" "[]" _ "\<lparr>brk = 0, objs = Map.empty\<rparr>" p m hs]
  from t i r have "capacity_slots p = length (free' p) + live p \<and> live p = length hs"
    by blast
  with r v i show ?thesis by blast
qed

section \<open>SkewHeap (skew\_heap\_impl.hpp)\<close>

text \<open>
  The members \<^verbatim>\<open>root_\<close>, \<^verbatim>\<open>sz_\<close>, \<^verbatim>\<open>cmp_\<close> and \<^verbatim>\<open>pool_\<close>. The template parameter
  \<^verbatim>\<open>UsePool\<close> is the argument \<open>up\<close> of the operations below: it is fixed for a type, so
  only heaps with the same \<open>up\<close> meet in a \<^verbatim>\<open>merge\<close>. Without \<^verbatim>\<open>UsePool\<close> the member
  \<^verbatim>\<open>pool_\<close> is a placeholder that no operation touches.
\<close>

record 'a SkewHeap =
  root' :: "'a Node"
  sz' :: nat
  cmp' :: "'a \<Rightarrow> 'a \<Rightarrow> bool"
  pool' :: ObjectPool

text \<open>\<^verbatim>\<open>explicit SkewHeap(const Comp& c)\<close>; the default constructor is the same with
  \<^verbatim>\<open>Comp{}\<close>. The pool member is default-constructed: \<^verbatim>\<open>ObjectPool(4096)\<close>.\<close>

definition SkewHeap :: "('a \<Rightarrow> 'a \<Rightarrow> bool) \<Rightarrow> 'a SkewHeap" where
  "SkewHeap c = \<lparr>root' = Null, sz' = 0, cmp' = c, pool' = ObjectPool 4096\<rparr>"

text \<open>
  Heap objects have an identity (\<^verbatim>\<open>merge\<close> compares \<^verbatim>\<open>this\<close> with \<^verbatim>\<open>&other\<close>), so the
  heaps of a program live in a store indexed by their addresses, next to the memory
  they share.
\<close>

record 'a world =
  sys :: "'a memory"
  heaps :: "nat \<Rightarrow> 'a SkewHeap"

definition world :: "('a \<Rightarrow> 'a \<Rightarrow> bool) \<Rightarrow> 'a world" where
  "world c = \<lparr>sys = \<lparr>brk = 0, objs = Map.empty\<rparr>, heaps = (\<lambda>i. SkewHeap c)\<rparr>"

text \<open>\<^verbatim>\<open>delete n\<close> for a non-null \<open>n\<close>: the object is destructed and its storage given back.\<close>

definition delete_node :: "addr \<Rightarrow> 't memory \<Rightarrow> 't memory" where
  "delete_node p m = m\<lparr>objs := (objs m)(p := None)\<rparr>"

text \<open>\<^verbatim>\<open>make_node(v)\<close>: \<^verbatim>\<open>pool_.create(v)\<close> with \<^verbatim>\<open>UsePool\<close>, else \<^verbatim>\<open>new Node(v)\<close>. The node
  is constructed with both links null.\<close>

definition make_node :: "bool \<Rightarrow> nat \<Rightarrow> 'a \<Rightarrow> 'a world \<Rightarrow> 'a Node \<times> 'a world" where
  "make_node up this v w =
     (if up then
        (case create v (pool' (heaps w this), sys w) of
           (p, pool1, m1) \<Rightarrow>
             (Node p v Null Null,
              w\<lparr>sys := m1, heaps := (heaps w)(this := (heaps w this)\<lparr>pool' := pool1\<rparr>)\<rparr>))
      else
        (let p = brk (sys w);
             m1 = (sys w)\<lparr>brk := p + 1, objs := (objs (sys w))(p \<mapsto> v)\<rparr>
         in (Node p v Null Null, w\<lparr>sys := m1\<rparr>)))"

fun destroy_subtree :: "'a Node \<Rightarrow> 't memory \<Rightarrow> 't memory" where
  "destroy_subtree Null m = m"
| "destroy_subtree (Node p k l r) m = delete_node p (destroy_subtree r (destroy_subtree l m))"

fun destroy_subtree_pool :: "'a Node \<Rightarrow> ObjectPool \<times> 't memory \<Rightarrow> ObjectPool \<times> 't memory" where
  "destroy_subtree_pool Null s = s"
| "destroy_subtree_pool (Node p k l r) s =
     destroy (Some p) (destroy_subtree_pool r (destroy_subtree_pool l s))"

text \<open>\<^verbatim>\<open>reserve_nodes(n)\<close> and \<^verbatim>\<open>release_all_to_pool()\<close>: nothing without \<^verbatim>\<open>UsePool\<close>. With
  it, the second asserts \<^verbatim>\<open>root_ == nullptr\<close> unless \<^verbatim>\<open>NDEBUG\<close> is defined.\<close>

definition reserve_nodes :: "bool \<Rightarrow> nat \<Rightarrow> nat \<Rightarrow> 'a world \<Rightarrow> 'a world" where
  "reserve_nodes up this n w =
     (if up then
        (case reserve n (pool' (heaps w this), sys w) of
           (pool1, m1) \<Rightarrow>
             w\<lparr>sys := m1, heaps := (heaps w)(this := (heaps w this)\<lparr>pool' := pool1\<rparr>)\<rparr>)
      else w)"

definition release_all_to_pool :: "bool \<Rightarrow> bool \<Rightarrow> nat \<Rightarrow> 'a world \<Rightarrow> fault + 'a world" where
  "release_all_to_pool ndebug up this w =
     (if up then
        (if \<not> ndebug \<and> root' (heaps w this) \<noteq> Null then Inl AssertionFailed
         else (case release_all ndebug (pool' (heaps w this), sys w) of
                 Inl e \<Rightarrow> Inl e
               | Inr (pool1, m1) \<Rightarrow>
                   Inr (w\<lparr>sys := m1,
                          heaps := (heaps w)(this := (heaps w this)\<lparr>pool' := pool1\<rparr>)\<rparr>)))
      else Inr w)"

text \<open>\<^verbatim>\<open>clear()\<close>: the whole tree is destroyed (through \<^verbatim>\<open>pool_\<close> with \<^verbatim>\<open>UsePool\<close>), then
  \<^verbatim>\<open>root_ = nullptr; sz_ = 0\<close>.\<close>

definition clear :: "bool \<Rightarrow> nat \<Rightarrow> 'a world \<Rightarrow> 'a world" where
  "clear up this w =
     (let h = heaps w this;
          s1 = (if up then destroy_subtree_pool (root' h) (pool' h, sys w)
                else (pool' h, destroy_subtree (root' h) (sys w)));
          h1 = h\<lparr>pool' := fst s1\<rparr>;
          h2 = h1\<lparr>root' := Null\<rparr>;
          h3 = h2\<lparr>sz' := 0\<rparr>
      in w\<lparr>sys := snd s1, heaps := (heaps w)(this := h3)\<rparr>)"

definition empty' :: "'a SkewHeap \<Rightarrow> bool" where
  "empty' h = (root' h = Null)"

definition size' :: "'a SkewHeap \<Rightarrow> nat" where
  "size' h = sz' h"

text \<open>\<^verbatim>\<open>top()\<close> is \<^verbatim>\<open>return root_->key;\<close> with no check in any build.\<close>

definition top :: "'a SkewHeap \<Rightarrow> fault + 'a" where
  "top h = (case root' h of Null \<Rightarrow> Inl NullDeref | Node p k l r \<Rightarrow> Inr k)"

definition comparator :: "'a SkewHeap \<Rightarrow> 'a \<Rightarrow> 'a \<Rightarrow> bool" where
  "comparator h = cmp' h"

text \<open>\<^verbatim>\<open>push(v)\<close> and \<^verbatim>\<open>emplace(args...)\<close>; for the latter \<open>v\<close> is the temporary
  \<^verbatim>\<open>T(args...)\<close> handed to \<^verbatim>\<open>make_node\<close>.\<close>

definition push :: "bool \<Rightarrow> nat \<Rightarrow> 'a \<Rightarrow> 'a world \<Rightarrow> 'a world" where
  "push up this v w =
     (case make_node up this v w of
        (n, w1) \<Rightarrow>
          let h = heaps w1 this;
              h1 = h\<lparr>root' := merge_nodes (cmp' h) (root' h) n\<rparr>;
              h2 = h1\<lparr>sz' := sz' h1 + 1\<rparr>
          in w1\<lparr>heaps := (heaps w1)(this := h2)\<rparr>)"

definition emplace :: "bool \<Rightarrow> nat \<Rightarrow> 'a \<Rightarrow> 'a world \<Rightarrow> 'a world" where
  "emplace up this v w =
     (case make_node up this v w of
        (n, w1) \<Rightarrow>
          let h = heaps w1 this;
              h1 = h\<lparr>root' := merge_nodes (cmp' h) (root' h) n\<rparr>;
              h2 = h1\<lparr>sz' := sz' h1 + 1\<rparr>
          in w1\<lparr>heaps := (heaps w1)(this := h2)\<rparr>)"

text \<open>
  \<^verbatim>\<open>pop()\<close>: reads \<^verbatim>\<open>root_->left\<close> and \<^verbatim>\<open>root_->right\<close> with no check, gives the root
  node to \<^verbatim>\<open>pool_.destroy\<close> (or to \<^verbatim>\<open>delete\<close>), merges the two children and decrements
  \<^verbatim>\<open>sz_\<close>.
\<close>

definition pop :: "bool \<Rightarrow> nat \<Rightarrow> 'a world \<Rightarrow> fault + 'a world" where
  "pop up this w =
     (let h = heaps w this in
      case root' h of
        Null \<Rightarrow> Inl NullDeref
      | Node p k l r \<Rightarrow>
          let s1 = (if up then destroy (Some p) (pool' h, sys w)
                    else (pool' h, delete_node p (sys w)));
              h1 = h\<lparr>pool' := fst s1\<rparr>;
              h2 = h1\<lparr>root' := merge_nodes (cmp' h1) l r\<rparr>;
              h3 = h2\<lparr>sz' := dec_size_t (sz' h2)\<rparr>
          in Inr (w\<lparr>sys := snd s1, heaps := (heaps w)(this := h3)\<rparr>))"

text \<open>
  \<^verbatim>\<open>merge(other)\<close>: returns at once when \<^verbatim>\<open>this == &other\<close>; otherwise the four
  assignments in the order of the source.
\<close>

definition merge :: "nat \<Rightarrow> nat \<Rightarrow> 'a world \<Rightarrow> 'a world" where
  "merge this other w =
     (if this = other then w
      else
        let hs = heaps w;
            hs1 = hs(this := (hs this)\<lparr>root' :=
                     merge_nodes (cmp' (hs this)) (root' (hs this)) (root' (hs other))\<rparr>);
            hs2 = hs1(this := (hs1 this)\<lparr>sz' := sz' (hs1 this) + sz' (hs1 other)\<rparr>);
            hs3 = hs2(other := (hs2 other)\<lparr>root' := Null\<rparr>);
            hs4 = hs3(other := (hs3 other)\<lparr>sz' := 0\<rparr>)
        in w\<lparr>heaps := hs4\<rparr>)"

text \<open>\<^verbatim>\<open>~SkewHeap()\<close> runs \<^verbatim>\<open>clear()\<close>; then the members are destroyed, and
  \<^verbatim>\<open>~ObjectPool()\<close> runs \<^verbatim>\<open>release_all()\<close>.\<close>

definition SkewHeap_dtor :: "bool \<Rightarrow> bool \<Rightarrow> nat \<Rightarrow> 'a world \<Rightarrow> fault + 'a world" where
  "SkewHeap_dtor ndebug up this w =
     (let w1 = clear up this w in
      if up then
        (case release_all ndebug (pool' (heaps w1 this), sys w1) of
           Inl e \<Rightarrow> Inl e
         | Inr (pool1, m1) \<Rightarrow>
             Inr (w1\<lparr>sys := m1,
                     heaps := (heaps w1)(this := (heaps w1 this)\<lparr>pool' := pool1\<rparr>)\<rparr>))
      else Inr w1)"

section \<open>Programs over heaps\<close>

text \<open>A client program is a sequence of calls on the heaps of the store; a call that
  faults ends the program.\<close>

datatype 'a call =
    Push nat 'a
  | Emplace nat 'a
  | Pop nat
  | Merge nat nat
  | Clear nat

fun do_call :: "bool \<Rightarrow> 'a call \<Rightarrow> 'a world \<Rightarrow> fault + 'a world" where
  "do_call up (Push i v) w = Inr (push up i v w)"
| "do_call up (Emplace i v) w = Inr (emplace up i v w)"
| "do_call up (Pop i) w = pop up i w"
| "do_call up (Merge i j) w = Inr (merge i j w)"
| "do_call up (Clear i) w = Inr (clear up i w)"

fun run :: "bool \<Rightarrow> 'a call list \<Rightarrow> 'a world \<Rightarrow> fault + 'a world" where
  "run up [] w = Inr w"
| "run up (c # cs) w = (case do_call up c w of Inl e \<Rightarrow> Inl e | Inr w1 \<Rightarrow> run up cs w1)"

lemma nodes_merge_nodes: "nodes (merge_nodes cmp a b) = nodes a + nodes b"
  by (induction a b rule: meld_induct[where cmp = cmp]) (simp_all add: merge_nodes_Node)

lemma pop_root:
  "pop up this w = Inr w1 \<Longrightarrow>
     root' (heaps w this) \<noteq> Null \<and>
     root' (heaps w1 this) =
       merge_nodes (cmp' (heaps w this)) (left (root' (heaps w this))) (right (root' (heaps w this))) \<and>
     cmp' (heaps w1 this) = cmp' (heaps w this)"
  by (auto simp: pop_def Let_def split: Node.splits)

lemma pop_nodes_less:
  "pop up this w = Inr w1 \<Longrightarrow> nodes (root' (heaps w1 this)) < nodes (root' (heaps w this))"
  by (auto simp: pop_def Let_def nodes_merge_nodes split: Node.splits)

text \<open>
  Draining a heap, as the clients do:
  \<^verbatim>\<open>while (!h.empty()) { got.push_back(h.top()); h.pop(); }\<close>
\<close>

function drain :: "bool \<Rightarrow> nat \<Rightarrow> 'a world \<Rightarrow> fault + 'a list \<times> 'a world" where
  "drain up this w =
     (if empty' (heaps w this) then Inr ([], w)
      else (case top (heaps w this) of
              Inl e \<Rightarrow> Inl e
            | Inr k \<Rightarrow>
                (case pop up this w of
                   Inl e \<Rightarrow> Inl e
                 | Inr w1 \<Rightarrow>
                     (case drain up this w1 of
                        Inl e \<Rightarrow> Inl e
                      | Inr (ks, w2) \<Rightarrow> Inr (k # ks, w2)))))"
  by pat_completeness auto
termination
  by (relation "measure (\<lambda>(up, this, w). nodes (root' (heaps w this)))")
     (auto simp: pop_nodes_less)

declare drain.simps [simp del]

section \<open>Heap order and draining\<close>

text \<open>The comparator is required to be a strict weak ordering: irreflexive, transitive,
  and with a transitive incomparability.\<close>

definition strict_weak_order :: "('a \<Rightarrow> 'a \<Rightarrow> bool) \<Rightarrow> bool" where
  "strict_weak_order c =
     ((\<forall>x. \<not> c x x) \<and>
      (\<forall>x y z. c x y \<longrightarrow> c y z \<longrightarrow> c x z) \<and>
      (\<forall>x y z. \<not> c x y \<and> \<not> c y x \<longrightarrow> \<not> c y z \<and> \<not> c z y \<longrightarrow> \<not> c x z \<and> \<not> c z x))"

text \<open>The structural invariant: in no node does the comparator put the key at the root
  of a child subtree before the node's own key.\<close>

fun root_ok :: "('a \<Rightarrow> 'a \<Rightarrow> bool) \<Rightarrow> 'a \<Rightarrow> 'a Node \<Rightarrow> bool" where
  "root_ok c k Null = True"
| "root_ok c k (Node p k' l r) = (\<not> c k' k)"

fun heap_ordered :: "('a \<Rightarrow> 'a \<Rightarrow> bool) \<Rightarrow> 'a Node \<Rightarrow> bool" where
  "heap_ordered c Null = True"
| "heap_ordered c (Node p k l r) =
     (root_ok c k l \<and> root_ok c k r \<and> heap_ordered c l \<and> heap_ordered c r)"

fun keys :: "'a Node \<Rightarrow> 'a multiset" where
  "keys Null = {#}"
| "keys (Node p k l r) = add_mset k (keys l + keys r)"

lemma swo_asym: "strict_weak_order c \<Longrightarrow> c x y \<Longrightarrow> \<not> c y x"
  unfolding strict_weak_order_def by blast

lemma swo_negtrans: "strict_weak_order c \<Longrightarrow> \<not> c x y \<Longrightarrow> \<not> c y z \<Longrightarrow> \<not> c x z"
  unfolding strict_weak_order_def by blast

lemma root_ok_merge_nodes:
  "root_ok c k a \<Longrightarrow> root_ok c k b \<Longrightarrow> root_ok c k (merge_nodes c a b)"
  by (cases a; cases b) (simp_all add: merge_nodes_Node)

lemma heap_ordered_merge_nodes:
  assumes swo: "strict_weak_order c"
  shows "heap_ordered c a \<Longrightarrow> heap_ordered c b \<Longrightarrow> heap_ordered c (merge_nodes c a b)"
proof (induction a b rule: meld_induct[where cmp = c])
  case (nodes pa ka la ra pb kb lb rb)
  show ?case
  proof (cases "c kb ka")
    case True
    then have "\<not> c ka kb" using swo by (rule swo_asym[rotated])
    then have "root_ok c kb (Node pa ka la ra)" by simp
    with True nodes show ?thesis
      by (simp add: merge_nodes_Node root_ok_merge_nodes)
  next
    case False
    then have "root_ok c ka (Node pb kb lb rb)" by simp
    with False nodes show ?thesis
      by (simp add: merge_nodes_Node root_ok_merge_nodes)
  qed
qed simp_all

lemma keys_merge_nodes: "keys (merge_nodes c a b) = keys a + keys b"
  by (induction a b rule: meld_induct[where cmp = c]) (simp_all add: merge_nodes_Node)

lemma heap_ordered_below:
  "strict_weak_order c \<Longrightarrow> heap_ordered c t \<Longrightarrow> root_ok c k t \<Longrightarrow> x \<in># keys t \<Longrightarrow> \<not> c x k"
proof (induction t arbitrary: k)
  case Null
  then show ?case by simp
next
  case (Node p k' l r)
  from Node.prems have top: "\<not> c k' k" by simp
  from Node.prems(4) consider "x = k'" | "x \<in># keys l" | "x \<in># keys r" by auto
  then show ?case
  proof cases
    case 1
    with top show ?thesis by simp
  next
    case 2
    with Node have "\<not> c x k'" by simp
    with top Node.prems(1) show ?thesis using swo_negtrans[of c x k' k] by blast
  next
    case 3
    with Node have "\<not> c x k'" by simp
    with top Node.prems(1) show ?thesis using swo_negtrans[of c x k' k] by blast
  qed
qed

lemma drain_ordered:
  "strict_weak_order c \<Longrightarrow> cmp' (heaps w this) = c \<Longrightarrow> heap_ordered c (root' (heaps w this)) \<Longrightarrow>
     \<exists>ks w1. drain up this w = Inr (ks, w1) \<and> mset ks = keys (root' (heaps w this)) \<and>
       sorted_wrt (\<lambda>x y. \<not> c y x) ks \<and> root' (heaps w1 this) = Null"
proof (induction up this w rule: drain.induct)
  case (1 up this w)
  show ?case
  proof (cases "root' (heaps w this)")
    case Null
    then show ?thesis by (subst drain.simps) (simp add: empty'_def)
  next
    case (Node p k l r)
    then have ne: "\<not> empty' (heaps w this)" and tp: "top (heaps w this) = Inr k"
      by (simp_all add: empty'_def top_def)
    from Node obtain w1 where pp: "pop up this w = Inr w1"
      by (auto simp: pop_def Let_def)
    from pop_root[OF pp] Node "1.prems" have
      r1: "root' (heaps w1 this) = merge_nodes c l r" and c1: "cmp' (heaps w1 this) = c"
      by simp_all
    from "1.prems" Node have hl: "heap_ordered c l" "heap_ordered c r" "root_ok c k l" "root_ok c k r"
      by simp_all
    have h1: "heap_ordered c (root' (heaps w1 this))"
      using hl "1.prems"(1) by (simp add: r1 heap_ordered_merge_nodes)
    from "1.IH"[OF ne tp pp "1.prems"(1) c1 h1] obtain ks w2 where
      d: "drain up this w1 = Inr (ks, w2)" and m: "mset ks = keys l + keys r"
      and s: "sorted_wrt (\<lambda>x y. \<not> c y x) ks" and e: "root' (heaps w2 this) = Null"
      by (auto simp: r1 keys_merge_nodes)
    have below: "\<forall>x \<in> set ks. \<not> c x k"
    proof
      fix x assume "x \<in> set ks"
      then have "x \<in># keys l + keys r" using m by (metis set_mset_mset)
      then show "\<not> c x k"
        using hl "1.prems"(1) by (auto dest: heap_ordered_below)
    qed
    have "drain up this w = Inr (k # ks, w2)"
      by (subst drain.simps) (simp add: ne tp pp d)
    with m s e below Node show ?thesis by simp
  qed
qed


lemma make_node_heaps:
  "make_node up i v w = (n, w1) \<Longrightarrow>
     (\<exists>p. n = Node p v Null Null) \<and>
     (\<forall>j. root' (heaps w1 j) = root' (heaps w j) \<and> sz' (heaps w1 j) = sz' (heaps w j) \<and>
          cmp' (heaps w1 j) = cmp' (heaps w j))"
  by (auto simp: make_node_def Let_def split: if_splits prod.splits)

lemma emplace_is_push: "emplace up i v w = push up i v w"
  by (simp add: emplace_def push_def)

lemma push_heaps:
  "\<exists>p. \<forall>j.
     root' (heaps (push up i v w) j) =
       (if j = i then merge_nodes (cmp' (heaps w i)) (root' (heaps w i)) (Node p v Null Null)
        else root' (heaps w j)) \<and>
     sz' (heaps (push up i v w) j) = (if j = i then sz' (heaps w i) + 1 else sz' (heaps w j)) \<and>
     cmp' (heaps (push up i v w) j) = cmp' (heaps w j)"
proof -
  obtain n w1 where mk: "make_node up i v w = (n, w1)" by (cases "make_node up i v w")
  from make_node_heaps[OF mk] obtain p where n: "n = Node p v Null Null"
    and same: "\<And>j. root' (heaps w1 j) = root' (heaps w j) \<and> sz' (heaps w1 j) = sz' (heaps w j) \<and>
          cmp' (heaps w1 j) = cmp' (heaps w j)" by blast
  show ?thesis
    by (rule exI[of _ p]) (simp add: push_def mk Let_def n same)
qed

lemma pop_heaps:
  "pop up i w = Inr w1 \<Longrightarrow>
     root' (heaps w1 j) =
       (if j = i then merge_nodes (cmp' (heaps w i)) (left (root' (heaps w i))) (right (root' (heaps w i)))
        else root' (heaps w j)) \<and>
     sz' (heaps w1 j) = (if j = i then dec_size_t (sz' (heaps w i)) else sz' (heaps w j)) \<and>
     cmp' (heaps w1 j) = cmp' (heaps w j)"
  by (auto simp: pop_def Let_def split: Node.splits)

lemma merge_heaps:
  "this \<noteq> other \<Longrightarrow>
     heaps (merge this other w) j =
       (if j = this then (heaps w this)\<lparr>root' :=
             merge_nodes (cmp' (heaps w this)) (root' (heaps w this)) (root' (heaps w other)),
             sz' := sz' (heaps w this) + sz' (heaps w other)\<rparr>
        else if j = other then (heaps w other)\<lparr>root' := Null, sz' := 0\<rparr>
        else heaps w j)"
  by (simp add: merge_def Let_def)

lemma merge_self: "merge this this w = w"
  by (simp add: merge_def)

lemma clear_heaps:
  "root' (heaps (clear up i w) j) = (if j = i then Null else root' (heaps w j)) \<and>
   sz' (heaps (clear up i w) j) = (if j = i then 0 else sz' (heaps w j)) \<and>
   cmp' (heaps (clear up i w) j) = cmp' (heaps w j)"
  by (simp add: clear_def Let_def)

text \<open>
  Heaps constructed with comparators of their own: the heap at index \<open>i\<close> by
  \<^verbatim>\<open>SkewHeap(f i)\<close>. A \<^verbatim>\<open>merge\<close> never looks at the comparator of its source, so whether
  the two heaps of a \<^verbatim>\<open>merge\<close> call were constructed with the same comparator is a
  property of the program.
\<close>

definition world_of :: "(nat \<Rightarrow> 'a \<Rightarrow> 'a \<Rightarrow> bool) \<Rightarrow> 'a world" where
  "world_of f = \<lparr>sys = \<lparr>brk = 0, objs = Map.empty\<rparr>, heaps = (\<lambda>i. SkewHeap (f i))\<rparr>"

fun same_comparator :: "(nat \<Rightarrow> 'a \<Rightarrow> 'a \<Rightarrow> bool) \<Rightarrow> 'a call \<Rightarrow> bool" where
  "same_comparator f (Merge i j) = (f i = f j)"
| "same_comparator f (Push i v) = True"
| "same_comparator f (Emplace i v) = True"
| "same_comparator f (Pop i) = True"
| "same_comparator f (Clear i) = True"

definition merges_agree :: "(nat \<Rightarrow> 'a \<Rightarrow> 'a \<Rightarrow> bool) \<Rightarrow> 'a call list \<Rightarrow> bool" where
  "merges_agree f cs = list_all (same_comparator f) cs"

definition ordered_world :: "(nat \<Rightarrow> 'a \<Rightarrow> 'a \<Rightarrow> bool) \<Rightarrow> 'a world \<Rightarrow> bool" where
  "ordered_world f w =
     (\<forall>i. cmp' (heaps w i) = f i \<and>
          (strict_weak_order (f i) \<longrightarrow> heap_ordered (f i) (root' (heaps w i))))"

lemma ordered_world_init: "ordered_world f (world_of f)"
  by (simp add: ordered_world_def world_of_def SkewHeap_def)

lemma heap_ordered_children:
  "heap_ordered c t \<Longrightarrow> t \<noteq> Null \<Longrightarrow> heap_ordered c (left t) \<and> heap_ordered c (right t)"
  by (cases t) simp_all

lemma ordered_world_call:
  assumes ow: "ordered_world f w" and sc: "same_comparator f cl"
    and cl: "do_call up cl w = Inr w1"
  shows "ordered_world f w1"
proof (cases cl)
  case (Push i v)
  obtain p where "\<And>j. root' (heaps (push up i v w) j) =
       (if j = i then merge_nodes (cmp' (heaps w i)) (root' (heaps w i)) (Node p v Null Null)
        else root' (heaps w j)) \<and> cmp' (heaps (push up i v w) j) = cmp' (heaps w j)"
    using push_heaps[of up i v w] by blast
  with Push cl ow show ?thesis
    by (auto simp: ordered_world_def heap_ordered_merge_nodes)
next
  case (Emplace i v)
  obtain p where "\<And>j. root' (heaps (push up i v w) j) =
       (if j = i then merge_nodes (cmp' (heaps w i)) (root' (heaps w i)) (Node p v Null Null)
        else root' (heaps w j)) \<and> cmp' (heaps (push up i v w) j) = cmp' (heaps w j)"
    using push_heaps[of up i v w] by blast
  with Emplace cl ow show ?thesis
    by (auto simp: ordered_world_def heap_ordered_merge_nodes emplace_is_push)
next
  case (Pop i)
  with cl have pp: "pop up i w = Inr w1" by simp
  show ?thesis
    unfolding ordered_world_def
  proof (intro allI)
    fix j
    from ow have "strict_weak_order (f i) \<longrightarrow> heap_ordered (f i) (root' (heaps w i))"
      "cmp' (heaps w i) = f i"
      "strict_weak_order (f j) \<longrightarrow> heap_ordered (f j) (root' (heaps w j))" "cmp' (heaps w j) = f j"
      by (simp_all add: ordered_world_def)
    then show "cmp' (heaps w1 j) = f j \<and>
        (strict_weak_order (f j) \<longrightarrow> heap_ordered (f j) (root' (heaps w1 j)))"
      using pop_heaps[OF pp, of j] pop_root[OF pp] heap_ordered_children[of "f i" "root' (heaps w i)"]
      by (auto simp: heap_ordered_merge_nodes)
  qed
next
  case (Merge i j)
  show ?thesis
  proof (cases "i = j")
    case True
    with Merge cl ow show ?thesis by (simp add: merge_self)
  next
    case False
    from Merge sc have fij: "f i = f j" by simp
    from Merge cl have w1: "w1 = merge i j w" by simp
    show ?thesis
      unfolding ordered_world_def
    proof (intro allI)
      fix k
      from ow have c: "cmp' (heaps w i) = f i" "cmp' (heaps w j) = f j" "cmp' (heaps w k) = f k"
        and h: "strict_weak_order (f i) \<longrightarrow> heap_ordered (f i) (root' (heaps w i))"
          "strict_weak_order (f j) \<longrightarrow> heap_ordered (f j) (root' (heaps w j))"
          "strict_weak_order (f k) \<longrightarrow> heap_ordered (f k) (root' (heaps w k))"
        by (simp_all add: ordered_world_def)
      show "cmp' (heaps w1 k) = f k \<and>
          (strict_weak_order (f k) \<longrightarrow> heap_ordered (f k) (root' (heaps w1 k)))"
        using False c h fij
        by (simp add: w1 merge_heaps heap_ordered_merge_nodes)
    qed
  qed
next
  case (Clear i)
  with cl ow show ?thesis
    by (auto simp: ordered_world_def clear_heaps)
qed

lemma ordered_world_run:
  "ordered_world f w \<Longrightarrow> merges_agree f cs \<Longrightarrow> run up cs w = Inr w1 \<Longrightarrow> ordered_world f w1"
proof (induction cs arbitrary: w)
  case Nil
  then show ?case by simp
next
  case (Cons cl cs)
  then show ?case
    by (auto simp: merges_agree_def split: sum.splits dest: ordered_world_call)
qed

text \<open>
  C1, as the code has it. Take heaps constructed with comparators \<open>f i\<close> and run any
  sequence of \<^verbatim>\<open>push\<close>, \<^verbatim>\<open>emplace\<close>, \<^verbatim>\<open>merge\<close>, \<^verbatim>\<open>pop\<close> (and \<^verbatim>\<open>clear\<close>) calls that does
  not fault and in which every \<^verbatim>\<open>merge\<close> joins two heaps constructed with the same
  comparator, with or without the pool. Then draining a heap whose comparator is a strict
  weak ordering returns: it yields exactly the keys stored in the heap, no later key is
  put before an earlier one by the heap's comparator (non-decreasing order;
  non-increasing when the comparator is reversed), and the heap is empty afterwards.
\<close>

theorem drain_sorted:
  assumes "strict_weak_order (f i)" and "merges_agree f cs"
    and "run up cs (world_of f) = Inr w"
  shows "\<exists>ks w1. drain up i w = Inr (ks, w1) \<and>
           sorted_wrt (\<lambda>x y. \<not> comparator (heaps w i) y x) ks \<and>
           mset ks = keys (root' (heaps w i)) \<and> empty' (heaps w1 i) \<and>
           comparator (heaps w i) = f i"
proof -
  have ow: "ordered_world f w"
    using ordered_world_run[OF ordered_world_init assms(2,3)] .
  with assms(1) have c: "cmp' (heaps w i) = f i" and h: "heap_ordered (f i) (root' (heaps w i))"
    by (simp_all add: ordered_world_def)
  from drain_ordered[OF assms(1) c h, of up] show ?thesis
    using c by (auto simp: comparator_def empty'_def)
qed

lemma less_nat_strict_weak_order: "strict_weak_order ((<) :: nat \<Rightarrow> nat \<Rightarrow> bool)"
  by (auto simp: strict_weak_order_def)

lemma greater_nat_strict_weak_order: "strict_weak_order ((>) :: nat \<Rightarrow> nat \<Rightarrow> bool)"
  by (auto simp: strict_weak_order_def)

theorem drain_sorted_witness:
  "strict_weak_order (if (0::nat) = 2 then (>) else ((<) :: nat \<Rightarrow> nat \<Rightarrow> bool)) \<and>
   strict_weak_order (if (2::nat) = 2 then (>) else ((<) :: nat \<Rightarrow> nat \<Rightarrow> bool)) \<and>
   merges_agree (\<lambda>i. if i = 2 then (>) else (<))
     [Push 0 (5::nat), Push 0 1, Push 0 9, Push 1 2, Emplace 1 6, Push 1 3, Merge 0 1,
      Push 2 5, Push 2 3, Push 2 7, Push 2 2, Push 2 9, Push 2 1, Push 2 8, Pop 2] \<and>
   (\<exists>w. run True
          [Push 0 (5::nat), Push 0 1, Push 0 9, Push 1 2, Emplace 1 6, Push 1 3, Merge 0 1,
           Push 2 5, Push 2 3, Push 2 7, Push 2 2, Push 2 9, Push 2 1, Push 2 8, Pop 2]
          (world_of (\<lambda>i. if i = 2 then (>) else (<))) = Inr w \<and>
     map_sum id fst (drain True 0 w) = Inr [1, 2, 3, 5, 6, 9] \<and>
     map_sum id fst (drain True 2 w) = Inr [8, 7, 5, 3, 2, 1] \<and>
     (\<exists>ks w1. drain True 0 w = Inr (ks, w1) \<and>
        sorted_wrt (\<lambda>x y. \<not> comparator (heaps w 0) y x) ks \<and>
        mset ks = keys (root' (heaps w 0)) \<and> empty' (heaps w1 0)) \<and>
     (\<exists>ks w1. drain True 2 w = Inr (ks, w1) \<and>
        sorted_wrt (\<lambda>x y. \<not> comparator (heaps w 2) y x) ks \<and>
        mset ks = keys (root' (heaps w 2)) \<and> empty' (heaps w1 2)))"
proof -
  define f :: "nat \<Rightarrow> nat \<Rightarrow> nat \<Rightarrow> bool" where "f = (\<lambda>i. if i = 2 then (>) else (<))"
  define cs :: "nat call list" where
    "cs = [Push 0 5, Push 0 1, Push 0 9, Push 1 2, Emplace 1 6, Push 1 3, Merge 0 1,
           Push 2 5, Push 2 3, Push 2 7, Push 2 2, Push 2 9, Push 2 1, Push 2 8, Pop 2]"
  have s0: "strict_weak_order (f 0)" and s2: "strict_weak_order (f 2)"
    by (simp_all add: f_def less_nat_strict_weak_order greater_nat_strict_weak_order)
  have ma: "merges_agree f cs"
    by (simp add: merges_agree_def cs_def f_def)
  have "case run True cs (world_of f) of
          Inl e \<Rightarrow> False
        | Inr w \<Rightarrow> map_sum id fst (drain True 0 w) = Inr [1, 2, 3, 5, 6, 9] \<and>
                  map_sum id fst (drain True 2 w) = Inr [8, 7, 5, 3, 2, 1]"
    by (simp add: cs_def f_def push_def emplace_def make_node_def pop_def merge_def world_of_def
          SkewHeap_def Let_def merge_nodes_Node drain.simps empty'_def top_def dec_size_t_def
          create_def grow_pos butlast_upt_less ObjectPool_def inc_size_t_less
          map_butlast[symmetric] last_map)
  then obtain w where r: "run True cs (world_of f) = Inr w"
    and d0: "map_sum id fst (drain True 0 w) = Inr [1, 2, 3, 5, 6, 9]"
    and d2: "map_sum id fst (drain True 2 w) = Inr [8, 7, 5, 3, 2, 1]"
    by (auto split: sum.splits)
  note a = drain_sorted[OF s0 ma r]
  note b = drain_sorted[OF s2 ma r]
  have "strict_weak_order (f 0) \<and> strict_weak_order (f 2) \<and> merges_agree f cs \<and>
   (\<exists>w. run True cs (world_of f) = Inr w \<and>
     map_sum id fst (drain True 0 w) = Inr [1, 2, 3, 5, 6, 9] \<and>
     map_sum id fst (drain True 2 w) = Inr [8, 7, 5, 3, 2, 1] \<and>
     (\<exists>ks w1. drain True 0 w = Inr (ks, w1) \<and>
        sorted_wrt (\<lambda>x y. \<not> comparator (heaps w 0) y x) ks \<and>
        mset ks = keys (root' (heaps w 0)) \<and> empty' (heaps w1 0)) \<and>
     (\<exists>ks w1. drain True 2 w = Inr (ks, w1) \<and>
        sorted_wrt (\<lambda>x y. \<not> comparator (heaps w 2) y x) ks \<and>
        mset ks = keys (root' (heaps w 2)) \<and> empty' (heaps w1 2)))"
    using s0 s2 ma r d0 d2 a b by blast
  then show ?thesis unfolding f_def cs_def .
qed

text \<open>
  The claim covers every sequence with \<^verbatim>\<open>merge\<close> calls. Let heap 1 be constructed with the
  descending comparator and heap 0 with the ascending one (both strict weak orderings):
  after \<^verbatim>\<open>h1.push(1); h1.push(2); h0.merge(h1);\<close> heap 0 drains as 2, 1, which its own
  comparator does not accept as non-decreasing.
\<close>

theorem drain_after_foreign_merge_counterexample:
  "strict_weak_order ((<) :: nat \<Rightarrow> nat \<Rightarrow> bool) \<and> strict_weak_order ((>) :: nat \<Rightarrow> nat \<Rightarrow> bool) \<and>
   run False [Push 1 (1::nat), Push 1 2, Merge 0 1]
     ((world (<))\<lparr>heaps := (heaps (world (<)))(1 := SkewHeap (>))\<rparr>) =
     Inr (merge 0 1 (push False 1 2 (push False 1 1
            ((world (<))\<lparr>heaps := (heaps (world (<)))(1 := SkewHeap (>))\<rparr>)))) \<and>
   map_sum id fst
     (drain False 0 (merge 0 1 (push False 1 2 (push False 1 (1::nat)
            ((world (<))\<lparr>heaps := (heaps (world (<)))(1 := SkewHeap (>))\<rparr>))))) = Inr [2, 1] \<and>
   comparator (heaps (merge 0 1 (push False 1 2 (push False 1 (1::nat)
            ((world (<))\<lparr>heaps := (heaps (world (<)))(1 := SkewHeap (>))\<rparr>)))) 0) = (<) \<and>
   \<not> sorted_wrt (\<lambda>x y. \<not> x > y) [2, 1 :: nat]"
proof -
  have "map_sum id fst
     (drain False 0 (merge 0 1 (push False 1 2 (push False 1 (1::nat)
            ((world (<))\<lparr>heaps := (heaps (world (<)))(1 := SkewHeap (>))\<rparr>))))) = Inr [2, 1]"
    by (simp add: push_def make_node_def pop_def merge_def world_def SkewHeap_def Let_def
          merge_nodes_Node delete_node_def drain.simps empty'_def top_def dec_size_t_def)
  moreover have "comparator (heaps (merge 0 1 (push False 1 2 (push False 1 (1::nat)
            ((world (<))\<lparr>heaps := (heaps (world (<)))(1 := SkewHeap (>))\<rparr>)))) 0) = (<)"
    by (simp add: push_def make_node_def merge_def world_def SkewHeap_def Let_def comparator_def)
  ultimately show ?thesis
    by (simp add: less_nat_strict_weak_order greater_nat_strict_weak_order)
qed

section \<open>Size accounting\<close>

text \<open>The counter \<^verbatim>\<open>sz_\<close> of every heap is the number of nodes of its tree.\<close>

definition counted_world :: "'a world \<Rightarrow> bool" where
  "counted_world w = (\<forall>i. sz' (heaps w i) = nodes (root' (heaps w i)))"

lemma counted_world_init: "counted_world (world c)"
  by (simp add: counted_world_def world_def SkewHeap_def)

lemma nodes_children:
  "t \<noteq> Null \<Longrightarrow> nodes t = Suc (nodes (left t) + nodes (right t))"
  by (cases t) simp_all

lemma counted_world_call:
  assumes cw: "counted_world w" and cl: "do_call up cl w = Inr w1"
  shows "counted_world w1"
proof (cases cl)
  case (Push i v)
  obtain p where "\<And>j. root' (heaps (push up i v w) j) =
       (if j = i then merge_nodes (cmp' (heaps w i)) (root' (heaps w i)) (Node p v Null Null)
        else root' (heaps w j)) \<and>
       sz' (heaps (push up i v w) j) = (if j = i then sz' (heaps w i) + 1 else sz' (heaps w j))"
    using push_heaps[of up i v w] by blast
  with Push cl cw show ?thesis
    by (auto simp: counted_world_def nodes_merge_nodes)
next
  case (Emplace i v)
  obtain p where "\<And>j. root' (heaps (push up i v w) j) =
       (if j = i then merge_nodes (cmp' (heaps w i)) (root' (heaps w i)) (Node p v Null Null)
        else root' (heaps w j)) \<and>
       sz' (heaps (push up i v w) j) = (if j = i then sz' (heaps w i) + 1 else sz' (heaps w j))"
    using push_heaps[of up i v w] by blast
  with Emplace cl cw show ?thesis
    by (auto simp: counted_world_def nodes_merge_nodes emplace_is_push)
next
  case (Pop i)
  with cl have pp: "pop up i w = Inr w1" by simp
  from pop_root[OF pp] have ne: "root' (heaps w i) \<noteq> Null" by simp
  show ?thesis
    unfolding counted_world_def
  proof (intro allI)
    fix j
    from cw have "sz' (heaps w i) = nodes (root' (heaps w i))" "sz' (heaps w j) = nodes (root' (heaps w j))"
      by (simp_all add: counted_world_def)
    then show "sz' (heaps w1 j) = nodes (root' (heaps w1 j))"
      using pop_heaps[OF pp, of j] nodes_children[OF ne]
      by (simp add: nodes_merge_nodes dec_size_t_def)
  qed
next
  case (Merge i j)
  show ?thesis
  proof (cases "i = j")
    case True
    with Merge cl cw show ?thesis by (simp add: merge_self)
  next
    case False
    with Merge cl cw show ?thesis
      by (auto simp: counted_world_def merge_heaps nodes_merge_nodes)
  qed
next
  case (Clear i)
  with cl cw show ?thesis
    by (auto simp: counted_world_def clear_heaps)
qed

lemma counted_world_run:
  "counted_world w \<Longrightarrow> run up cs w = Inr w1 \<Longrightarrow> counted_world w1"
proof (induction cs arbitrary: w)
  case Nil
  then show ?case by simp
next
  case (Cons cl cs)
  then show ?case
    by (auto split: sum.splits dest: counted_world_call)
qed

lemma drain_returns:
  "\<exists>ks w1. drain up this w = Inr (ks, w1) \<and> root' (heaps w1 this) = Null \<and>
      (counted_world w \<longrightarrow> counted_world w1)"
proof (induction up this w rule: drain.induct)
  case (1 up this w)
  show ?case
  proof (cases "root' (heaps w this)")
    case Null
    then show ?thesis by (subst drain.simps) (simp add: empty'_def)
  next
    case (Node p k l r)
    then have ne: "\<not> empty' (heaps w this)" and tp: "top (heaps w this) = Inr k"
      by (simp_all add: empty'_def top_def)
    from Node obtain w1 where pp: "pop up this w = Inr w1"
      by (auto simp: pop_def Let_def)
    then have "do_call up (Pop this) w = Inr w1" by simp
    then have cw1: "counted_world w \<Longrightarrow> counted_world w1"
      by (rule counted_world_call[rotated])
    from "1.IH"[OF ne tp pp] obtain ks w2 where
      d: "drain up this w1 = Inr (ks, w2)" and e: "root' (heaps w2 this) = Null"
      and c: "counted_world w1 \<longrightarrow> counted_world w2"
      by blast
    have "drain up this w = Inr (k # ks, w2)"
      by (subst drain.simps) (simp add: ne tp pp d)
    with e c cw1 show ?thesis by blast
  qed
qed

text \<open>
  C8. In every state that a sequence of \<^verbatim>\<open>push\<close>, \<^verbatim>\<open>emplace\<close>, \<^verbatim>\<open>pop\<close>, \<^verbatim>\<open>merge\<close> and
  \<^verbatim>\<open>clear\<close> calls reaches from freshly constructed heaps, \<^verbatim>\<open>empty()\<close> holds of a heap
  exactly when its \<^verbatim>\<open>size()\<close> is zero. Both hold right after construction and right
  after draining the heap by \<^verbatim>\<open>pop\<close> (which returns), and one more call that does not
  fault (so \<^verbatim>\<open>pop\<close> only on a non-empty heap) leaves the equivalence true of every heap.
\<close>

theorem empty_iff_size_zero:
  assumes "run up cs (world c) = Inr w"
  shows "(empty' (heaps w i) \<longleftrightarrow> size' (heaps w i) = 0) \<and>
         (empty' (SkewHeap c) \<and> size' (SkewHeap c) = 0) \<and>
         (\<exists>ks w1. drain up i w = Inr (ks, w1) \<and> empty' (heaps w1 i) \<and> size' (heaps w1 i) = 0) \<and>
         (do_call up cl w = Inr w2 \<longrightarrow> (empty' (heaps w2 j) \<longleftrightarrow> size' (heaps w2 j) = 0))"
proof -
  have iff: "empty' (heaps v n) \<longleftrightarrow> size' (heaps v n) = 0" if "counted_world v" for v :: "'a world" and n
  proof -
    from that have "sz' (heaps v n) = nodes (root' (heaps v n))" by (simp add: counted_world_def)
    then show ?thesis by (cases "root' (heaps v n)") (simp_all add: empty'_def size'_def)
  qed
  have cw: "counted_world w"
    using counted_world_run[OF counted_world_init assms] .
  obtain ks w1 where d: "drain up i w = Inr (ks, w1)" and e: "root' (heaps w1 i) = Null"
    and c1: "counted_world w1"
    using drain_returns[of up i w] cw by blast
  have "empty' (heaps w1 i) \<and> size' (heaps w1 i) = 0"
    using iff[OF c1, of i] e by (simp add: empty'_def)
  moreover have "empty' (SkewHeap c) \<and> size' (SkewHeap c) = 0"
    by (simp add: empty'_def size'_def SkewHeap_def)
  moreover have "do_call up cl w = Inr w2 \<longrightarrow> (empty' (heaps w2 j) \<longleftrightarrow> size' (heaps w2 j) = 0)"
    using counted_world_call[OF cw] iff by blast
  ultimately show ?thesis using iff[OF cw, of i] d by blast
qed

theorem empty_iff_size_zero_witness:
  "run False [Push 0 (5::nat), Push 1 3, Merge 0 1] (world (<)) =
     Inr (merge 0 1 (push False 1 3 (push False 0 5 (world (<))))) \<and>
   (\<exists>w2. do_call False (Pop 0) (merge 0 1 (push False 1 3 (push False 0 (5::nat) (world (<))))) = Inr w2 \<and>
      (empty' (heaps w2 1) \<longleftrightarrow> size' (heaps w2 1) = 0)) \<and>
   (empty' (heaps (merge 0 1 (push False 1 3 (push False 0 (5::nat) (world (<))))) 0) \<longleftrightarrow>
     size' (heaps (merge 0 1 (push False 1 3 (push False 0 (5::nat) (world (<))))) 0) = 0)"
proof -
  define w where "w = merge 0 1 (push False 1 3 (push False 0 (5::nat) (world (<))))"
  have r: "run False [Push 0 (5::nat), Push 1 3, Merge 0 1] (world (<)) = Inr w"
    by (simp add: w_def)
  obtain w2 where p: "do_call False (Pop 0) w = Inr w2"
    by (simp add: w_def push_def make_node_def pop_def merge_def world_def SkewHeap_def Let_def
          merge_nodes_Node delete_node_def)
  note t = empty_iff_size_zero[OF r, of 0 "Pop 0" w2 1]
  from t p have a: "empty' (heaps w2 1) \<longleftrightarrow> size' (heaps w2 1) = 0" by (simp only:)
  from t have b: "empty' (heaps w 0) \<longleftrightarrow> size' (heaps w 0) = 0" by (simp only:)
  from r p a b show ?thesis
    unfolding w_def by (intro conjI exI[of _ w2]) (simp_all only:)
qed

section \<open>Merging heaps\<close>

text \<open>What a drain yields depends on the tree and the comparator of the drained heap only.\<close>

lemma drain_keys_cong:
  "root' (heaps w1 i) = root' (heaps w2 i) \<Longrightarrow> cmp' (heaps w1 i) = cmp' (heaps w2 i) \<Longrightarrow>
     map_sum id fst (drain up i w1) = map_sum id fst (drain up i w2)"
proof (induction up i w1 arbitrary: w2 rule: drain.induct)
  case (1 up this w)
  show ?case
  proof (cases "root' (heaps w this)")
    case Null
    with "1.prems" show ?thesis
      by (subst drain.simps, subst (2) drain.simps) (simp add: empty'_def)
  next
    case (Node p k l r)
    with "1.prems" have n2: "root' (heaps w2 this) = Node p k l r" by simp
    from Node have ne: "\<not> empty' (heaps w this)" and tp: "top (heaps w this) = Inr k"
      by (simp_all add: empty'_def top_def)
    from n2 have ne2: "\<not> empty' (heaps w2 this)" and tp2: "top (heaps w2 this) = Inr k"
      by (simp_all add: empty'_def top_def)
    from Node obtain v1 where p1: "pop up this w = Inr v1"
      by (auto simp: pop_def Let_def)
    from n2 obtain v2 where p2: "pop up this w2 = Inr v2"
      by (auto simp: pop_def Let_def)
    have "root' (heaps v1 this) = root' (heaps v2 this)" "cmp' (heaps v1 this) = cmp' (heaps v2 this)"
      using pop_root[OF p1] pop_root[OF p2] Node n2 "1.prems" by simp_all
    from "1.IH"[OF ne tp p1 this]
    have ih: "map_sum id fst (drain up this v1) = map_sum id fst (drain up this v2)" .
    show ?thesis
      using ih
      by (subst drain.simps, subst (2) drain.simps)
         (auto simp: ne tp p1 ne2 tp2 p2 split: sum.splits prod.splits)
  qed
qed

text \<open>
  C3. For two distinct heaps, \<^verbatim>\<open>h.merge(other)\<close> makes the size of \<open>h\<close> the sum of the two
  sizes, makes the tree of \<open>h\<close> the meld of the two trees (so its keys are those of both:
  a transfer), and leaves \<open>other\<close> with a null root and size zero. Merging a heap with
  itself changes nothing at all, so draining it afterwards gives what draining it before
  would have given.
\<close>

theorem merge_transfers_and_empties:
  "(this \<noteq> other \<longrightarrow>
      size' (heaps (merge this other w) this) = size' (heaps w this) + size' (heaps w other) \<and>
      root' (heaps (merge this other w) this) =
        merge_nodes (comparator (heaps w this)) (root' (heaps w this)) (root' (heaps w other)) \<and>
      keys (root' (heaps (merge this other w) this)) =
        keys (root' (heaps w this)) + keys (root' (heaps w other)) \<and>
      root' (heaps (merge this other w) other) = Null \<and>
      size' (heaps (merge this other w) other) = 0 \<and>
      empty' (heaps (merge this other w) other)) \<and>
   merge this this w = w \<and>
   drain up this (merge this this w) = drain up this w"
  by (simp add: merge_heaps merge_self size'_def empty'_def comparator_def keys_merge_nodes)

theorem merge_transfers_and_empties_witness:
  "(0::nat) \<noteq> 1 \<and>
   size' (heaps (merge 0 1 (push False 1 3 (push False 0 (5::nat) (world (<))))) 0) =
     size' (heaps (push False 1 3 (push False 0 (5::nat) (world (<)))) 0) +
     size' (heaps (push False 1 3 (push False 0 (5::nat) (world (<)))) 1) \<and>
   root' (heaps (merge 0 1 (push False 1 3 (push False 0 (5::nat) (world (<))))) 1) = Null \<and>
   size' (heaps (merge 0 1 (push False 1 3 (push False 0 (5::nat) (world (<))))) 1) = 0"
  using merge_transfers_and_empties[of 0 1 "push False 1 3 (push False 0 (5::nat) (world (<)))"]
  by simp

text \<open>
  C10, as the code has it. The destination of a \<^verbatim>\<open>merge\<close> does not depend on the
  comparator of the source. Take two situations with the same destination heap and with
  source heaps that have the same tree and the same size (their comparators may differ):
  after the merge the two destination heaps are equal, the destination still has its own
  comparator, and draining the destination yields the same sequence in both. For two
  distinct heaps the tree of the destination is the meld of the two trees under the
  destination's comparator and its size is the sum. The transferred elements come out in
  the order of the destination's comparator when that comparator is a strict weak
  ordering and both trees are heap-ordered under it (as they are when both heaps were
  built with it): then the drain returns the keys of the merged tree in non-decreasing
  order.
\<close>

theorem merge_ignores_source_comparator:
  assumes "heaps w1 this = heaps w2 this"
    and "root' (heaps w1 other) = root' (heaps w2 other)"
    and "sz' (heaps w1 other) = sz' (heaps w2 other)"
  shows "heaps (merge this other w1) this = heaps (merge this other w2) this \<and>
         comparator (heaps (merge this other w1) this) = comparator (heaps w1 this) \<and>
         map_sum id fst (drain up this (merge this other w1)) =
           map_sum id fst (drain up this (merge this other w2)) \<and>
         (this \<noteq> other \<longrightarrow>
            root' (heaps (merge this other w1) this) =
              merge_nodes (comparator (heaps w1 this)) (root' (heaps w1 this))
                (root' (heaps w1 other)) \<and>
            size' (heaps (merge this other w1) this) =
              size' (heaps w1 this) + size' (heaps w1 other) \<and>
            keys (root' (heaps (merge this other w1) this)) =
              keys (root' (heaps w1 this)) + keys (root' (heaps w1 other))) \<and>
         (strict_weak_order (comparator (heaps w1 this)) \<and>
          heap_ordered (comparator (heaps w1 this)) (root' (heaps w1 this)) \<and>
          heap_ordered (comparator (heaps w1 this)) (root' (heaps w1 other)) \<longrightarrow>
            (\<exists>ks v. drain up this (merge this other w1) = Inr (ks, v) \<and>
               sorted_wrt (\<lambda>x y. \<not> comparator (heaps w1 this) y x) ks \<and>
               mset ks = keys (root' (heaps (merge this other w1) this))))"
proof -
  have eq: "heaps (merge this other w1) this = heaps (merge this other w2) this"
    using assms by (cases "this = other") (simp_all add: merge_self merge_heaps)
  have c: "comparator (heaps (merge this other w1) this) = comparator (heaps w1 this)"
    by (cases "this = other") (simp_all add: merge_self merge_heaps comparator_def)
  from eq have d: "map_sum id fst (drain up this (merge this other w1)) =
           map_sum id fst (drain up this (merge this other w2))"
    by (intro drain_keys_cong) simp_all
  have m: "this \<noteq> other \<longrightarrow>
            root' (heaps (merge this other w1) this) =
              merge_nodes (comparator (heaps w1 this)) (root' (heaps w1 this))
                (root' (heaps w1 other)) \<and>
            size' (heaps (merge this other w1) this) =
              size' (heaps w1 this) + size' (heaps w1 other) \<and>
            keys (root' (heaps (merge this other w1) this)) =
              keys (root' (heaps w1 this)) + keys (root' (heaps w1 other))"
    by (simp add: merge_heaps comparator_def size'_def keys_merge_nodes)
  have o: "\<exists>ks v. drain up this (merge this other w1) = Inr (ks, v) \<and>
               sorted_wrt (\<lambda>x y. \<not> comparator (heaps w1 this) y x) ks \<and>
               mset ks = keys (root' (heaps (merge this other w1) this))"
    if swo: "strict_weak_order (comparator (heaps w1 this))"
      and h1: "heap_ordered (comparator (heaps w1 this)) (root' (heaps w1 this))"
      and h2: "heap_ordered (comparator (heaps w1 this)) (root' (heaps w1 other))"
  proof -
    have cm: "cmp' (heaps (merge this other w1) this) = comparator (heaps w1 this)"
      using c by (simp add: comparator_def)
    have "heap_ordered (comparator (heaps w1 this)) (root' (heaps (merge this other w1) this))"
      using swo h1 h2
      by (cases "this = other")
         (simp_all add: merge_self merge_heaps comparator_def heap_ordered_merge_nodes)
    from drain_ordered[OF swo cm this, of up] show ?thesis by blast
  qed
  from eq c d m o show ?thesis by blast
qed

theorem merge_ignores_source_comparator_witness:
  "heaps (push False 1 1 (push False 1 4 (push False 0 3 (push False 0 (5::nat) (world (<)))))) 0 =
     heaps ((push False 1 1 (push False 1 4 (push False 0 3 (push False 0 (5::nat) (world (<))))))
              \<lparr>heaps := (heaps (push False 1 1 (push False 1 4 (push False 0 3
                                   (push False 0 (5::nat) (world (<)))))))
                 (1 := (heaps (push False 1 1 (push False 1 4 (push False 0 3
                                   (push False 0 (5::nat) (world (<)))))) 1)\<lparr>cmp' := (>)\<rparr>)\<rparr>) 0 \<and>
   cmp' (heaps (push False 1 1 (push False 1 4 (push False 0 3 (push False 0 (5::nat) (world (<)))))) 1) \<noteq>
     cmp' (heaps ((push False 1 1 (push False 1 4 (push False 0 3 (push False 0 (5::nat) (world (<))))))
              \<lparr>heaps := (heaps (push False 1 1 (push False 1 4 (push False 0 3
                                   (push False 0 (5::nat) (world (<)))))))
                 (1 := (heaps (push False 1 1 (push False 1 4 (push False 0 3
                                   (push False 0 (5::nat) (world (<)))))) 1)\<lparr>cmp' := (>)\<rparr>)\<rparr>) 1) \<and>
   heaps (merge 0 1 (push False 1 1 (push False 1 4 (push False 0 3 (push False 0 (5::nat) (world (<))))))) 0 =
     heaps (merge 0 1 ((push False 1 1 (push False 1 4 (push False 0 3 (push False 0 (5::nat) (world (<))))))
              \<lparr>heaps := (heaps (push False 1 1 (push False 1 4 (push False 0 3
                                   (push False 0 (5::nat) (world (<)))))))
                 (1 := (heaps (push False 1 1 (push False 1 4 (push False 0 3
                                   (push False 0 (5::nat) (world (<)))))) 1)\<lparr>cmp' := (>)\<rparr>)\<rparr>)) 0 \<and>
   map_sum id fst (drain False 0 (merge 0 1 (push False 1 1 (push False 1 4 (push False 0 3
        (push False 0 (5::nat) (world (<)))))))) = Inr [1, 3, 4, 5] \<and>
   map_sum id fst (drain False 0 (merge 0 1
        ((push False 1 1 (push False 1 4 (push False 0 3 (push False 0 (5::nat) (world (<))))))
              \<lparr>heaps := (heaps (push False 1 1 (push False 1 4 (push False 0 3
                                   (push False 0 (5::nat) (world (<)))))))
                 (1 := (heaps (push False 1 1 (push False 1 4 (push False 0 3
                                   (push False 0 (5::nat) (world (<)))))) 1)\<lparr>cmp' := (>)\<rparr>)\<rparr>))) =
     Inr [1, 3, 4, 5] \<and>
   size' (heaps (merge 0 1 (push False 1 1 (push False 1 4 (push False 0 3
        (push False 0 (5::nat) (world (<))))))) 0) = 4 \<and>
   (\<exists>ks v. drain False 0 (merge 0 1 (push False 1 1 (push False 1 4 (push False 0 3
        (push False 0 (5::nat) (world (<))))))) = Inr (ks, v) \<and>
      sorted_wrt (\<lambda>x y. \<not> comparator (heaps (push False 1 1 (push False 1 4 (push False 0 3
        (push False 0 (5::nat) (world (<)))))) 0) y x) ks)"
proof -
  define w1 where "w1 = push False 1 1 (push False 1 4 (push False 0 3 (push False 0 (5::nat) (world (<)))))"
  define w2 where "w2 = w1\<lparr>heaps := (heaps w1)(1 := (heaps w1 1)\<lparr>cmp' := (>)\<rparr>)\<rparr>"
  have a: "heaps w1 0 = heaps w2 0" by (simp add: w2_def)
  have b: "root' (heaps w1 1) = root' (heaps w2 1)" by (simp add: w2_def)
  have c: "sz' (heaps w1 1) = sz' (heaps w2 1)" by (simp add: w2_def)
  have ne: "(0::nat) \<noteq> 1" by simp
  have c0: "comparator (heaps w1 0) = ((<) :: nat \<Rightarrow> nat \<Rightarrow> bool)"
    and c1: "cmp' (heaps w1 1) = ((<) :: nat \<Rightarrow> nat \<Rightarrow> bool)"
    and s0: "size' (heaps w1 0) = 2" and s1: "size' (heaps w1 1) = 2"
    and h0: "heap_ordered (<) (root' (heaps w1 0))" and h1: "heap_ordered (<) (root' (heaps w1 1))"
    by (simp_all add: w1_def push_def make_node_def world_def SkewHeap_def Let_def comparator_def
          size'_def merge_nodes_Node)
  have "((<) :: nat \<Rightarrow> nat \<Rightarrow> bool) \<noteq> (>)"
  proof
    assume "((<) :: nat \<Rightarrow> nat \<Rightarrow> bool) = (>)"
    then have "((0::nat) < 1) = ((0::nat) > 1)" by (rule fun_cong[THEN fun_cong])
    then show False by simp
  qed
  with c1 have d: "cmp' (heaps w1 1) \<noteq> cmp' (heaps w2 1)" by (simp add: w2_def)
  note t = merge_ignores_source_comparator[OF a b c, of False]
  from t have e: "heaps (merge 0 1 w1) 0 = heaps (merge 0 1 w2) 0" by (rule conjunct1)
  from t have g: "map_sum id fst (drain False 0 (merge 0 1 w1)) =
      map_sum id fst (drain False 0 (merge 0 1 w2))" by blast
  from t ne have "size' (heaps (merge 0 1 w1) 0) = size' (heaps w1 0) + size' (heaps w1 1)"
    by blast
  with s0 s1 have sz: "size' (heaps (merge 0 1 w1) 0) = 4" by simp
  have pre: "strict_weak_order (comparator (heaps w1 0)) \<and>
      heap_ordered (comparator (heaps w1 0)) (root' (heaps w1 0)) \<and>
      heap_ordered (comparator (heaps w1 0)) (root' (heaps w1 1))"
    using c0 h0 h1 less_nat_strict_weak_order by simp
  from t pre have so: "\<exists>ks v. drain False 0 (merge 0 1 w1) = Inr (ks, v) \<and>
      sorted_wrt (\<lambda>x y. \<not> comparator (heaps w1 0) y x) ks"
    by blast
  have dr: "map_sum id fst (drain False 0 (merge 0 1 w1)) = Inr [1, 3, 4, 5]"
    by (simp add: w1_def push_def make_node_def pop_def merge_def world_def SkewHeap_def Let_def
          merge_nodes_Node delete_node_def drain.simps empty'_def top_def dec_size_t_def)
  from g dr have dr2: "map_sum id fst (drain False 0 (merge 0 1 w2)) = Inr [1, 3, 4, 5]"
    by simp
  have "heaps w1 0 = heaps w2 0 \<and> cmp' (heaps w1 1) \<noteq> cmp' (heaps w2 1) \<and>
        heaps (merge 0 1 w1) 0 = heaps (merge 0 1 w2) 0 \<and>
        map_sum id fst (drain False 0 (merge 0 1 w1)) = Inr [1, 3, 4, 5] \<and>
        map_sum id fst (drain False 0 (merge 0 1 w2)) = Inr [1, 3, 4, 5] \<and>
        size' (heaps (merge 0 1 w1) 0) = 4 \<and>
        (\<exists>ks v. drain False 0 (merge 0 1 w1) = Inr (ks, v) \<and>
           sorted_wrt (\<lambda>x y. \<not> comparator (heaps w1 0) y x) ks)"
    by (intro conjI) (fact a, fact d, fact e, fact dr, fact dr2, fact sz, fact so)
  then show ?thesis
    unfolding w2_def w1_def .
qed

text \<open>
  The claim has every transferred element come out in the order of the destination's
  comparator. Let heap 0 be constructed with the ascending comparator and hold 3, and
  heap 1 with the descending one and hold 1 and 2. After \<^verbatim>\<open>h0.merge(h1)\<close> heap 0, whose
  comparator is still the ascending one, drains as 2, 1, 3: the transferred 2 comes out
  before the transferred 1.
\<close>

theorem transferred_order_counterexample:
  "comparator (heaps (merge 0 1 (push False 1 2 (push False 1 1 (push False 0 (3::nat)
        ((world (<))\<lparr>heaps := (heaps (world (<)))(1 := SkewHeap (>))\<rparr>))))) 0) = (<) \<and>
   map_sum id fst
     (drain False 0 (merge 0 1 (push False 1 2 (push False 1 1 (push False 0 (3::nat)
        ((world (<))\<lparr>heaps := (heaps (world (<)))(1 := SkewHeap (>))\<rparr>)))))) = Inr [2, 1, 3] \<and>
   \<not> sorted_wrt (\<lambda>x y. \<not> x > y) [2, 1, 3 :: nat]"
proof -
  have "map_sum id fst
     (drain False 0 (merge 0 1 (push False 1 2 (push False 1 1 (push False 0 (3::nat)
        ((world (<))\<lparr>heaps := (heaps (world (<)))(1 := SkewHeap (>))\<rparr>)))))) = Inr [2, 1, 3]"
    by (simp add: push_def make_node_def pop_def merge_def world_def SkewHeap_def Let_def
          merge_nodes_Node delete_node_def drain.simps empty'_def top_def dec_size_t_def)
  moreover have "comparator (heaps (merge 0 1 (push False 1 2 (push False 1 1 (push False 0 (3::nat)
        ((world (<))\<lparr>heaps := (heaps (world (<)))(1 := SkewHeap (>))\<rparr>))))) 0) = (<)"
    by (simp add: push_def make_node_def merge_def world_def SkewHeap_def Let_def comparator_def)
  ultimately show ?thesis by simp
qed

section \<open>Calls outside the preconditions\<close>

text \<open>
  C7, as the code has it. \<^verbatim>\<open>top()\<close> and \<^verbatim>\<open>pop()\<close> on an empty heap dereference the null
  root in every build: no assertion guards them. \<^verbatim>\<open>release_all_to_pool()\<close> on a non-empty
  pool-backed heap and \<^verbatim>\<open>ObjectPool::release_all()\<close> with live objects fail an assertion in
  a debug build; in an optimized build they are not checked and release the blocks (the
  tree and the live count stay as they were). On a heap without pool
  \<^verbatim>\<open>release_all_to_pool()\<close> does nothing in either build. No call reports an error value.
\<close>

theorem precondition_violations:
  "(empty' h \<longrightarrow> top h = Inl NullDeref) \<and>
   (empty' (heaps w i) \<longrightarrow> pop up i w = Inl NullDeref) \<and>
   (\<not> empty' (heaps w i) \<longrightarrow>
      release_all_to_pool False True i w = Inl AssertionFailed \<and>
      (\<exists>w1. release_all_to_pool True True i w = Inr w1 \<and>
         blocks' (pool' (heaps w1 i)) = [] \<and> free' (pool' (heaps w1 i)) = [] \<and>
         root' (heaps w1 i) = root' (heaps w i)) \<and>
      release_all_to_pool ndebug False i w = Inr w) \<and>
   (live p \<noteq> 0 \<longrightarrow>
      release_all False (p, m) = Inl AssertionFailed \<and>
      (\<exists>p1 m1. release_all True (p, m) = Inr (p1, m1) \<and>
         blocks' p1 = [] \<and> free' p1 = [] \<and> live p1 = live p))"
  by (simp add: empty'_def top_def pop_def release_all_to_pool_def release_all_def live_def Let_def)

theorem precondition_violations_witness:
  "empty' (SkewHeap ((<) :: nat \<Rightarrow> nat \<Rightarrow> bool)) \<and>
   top (SkewHeap ((<) :: nat \<Rightarrow> nat \<Rightarrow> bool)) = Inl NullDeref \<and>
   empty' (heaps (world ((<) :: nat \<Rightarrow> nat \<Rightarrow> bool)) 0) \<and>
   pop True 0 (world ((<) :: nat \<Rightarrow> nat \<Rightarrow> bool)) = Inl NullDeref \<and>
   \<not> empty' (heaps (push True 0 (5::nat) (world (<))) 0) \<and>
   release_all_to_pool False True 0 (push True 0 (5::nat) (world (<))) = Inl AssertionFailed \<and>
   live (pool' (heaps (push True 0 (5::nat) (world (<))) 0)) \<noteq> 0 \<and>
   release_all False (pool' (heaps (push True 0 (5::nat) (world (<))) 0),
                      sys (push True 0 (5::nat) (world (<)))) = Inl AssertionFailed"
proof -
  have a: "empty' (SkewHeap ((<) :: nat \<Rightarrow> nat \<Rightarrow> bool))"
    and b: "empty' (heaps (world ((<) :: nat \<Rightarrow> nat \<Rightarrow> bool)) 0)"
    by (simp_all add: empty'_def SkewHeap_def world_def)
  obtain q where "root' (heaps (push True 0 (5::nat) (world (<))) 0) =
      merge_nodes (cmp' (heaps (world (<)) 0)) (root' (heaps (world ((<) :: nat \<Rightarrow> nat \<Rightarrow> bool)) 0))
        (Node q 5 Null Null)"
    using push_heaps[of True 0 "5::nat" "world (<)"] by auto
  then have c: "\<not> empty' (heaps (push True 0 (5::nat) (world (<))) 0)"
    by (simp add: empty'_def world_def SkewHeap_def)
  have d: "live (pool' (heaps (push True 0 (5::nat) (world (<))) 0)) \<noteq> 0"
    by (simp add: push_def make_node_def create_def Let_def live_def inc_size_t_less
          world_def SkewHeap_def ObjectPool_def grow_pos)
  note t1 = precondition_violations[of "SkewHeap ((<) :: nat \<Rightarrow> nat \<Rightarrow> bool)"
      "world ((<) :: nat \<Rightarrow> nat \<Rightarrow> bool)" 0 True False "ObjectPool 4096" "\<lparr>brk = 0, objs = (Map.empty :: addr \<rightharpoonup> nat)\<rparr>"]
  note t2 = precondition_violations[of "SkewHeap ((<) :: nat \<Rightarrow> nat \<Rightarrow> bool)"
      "push True 0 (5::nat) (world (<))" 0 True False
      "pool' (heaps (push True 0 (5::nat) (world (<))) 0)" "sys (push True 0 (5::nat) (world (<)))"]
  from t1 a b have "top (SkewHeap ((<) :: nat \<Rightarrow> nat \<Rightarrow> bool)) = Inl NullDeref"
    "pop True 0 (world ((<) :: nat \<Rightarrow> nat \<Rightarrow> bool)) = Inl NullDeref" by blast+
  moreover from t2 c d have
    "release_all_to_pool False True 0 (push True 0 (5::nat) (world (<))) = Inl AssertionFailed"
    "release_all False (pool' (heaps (push True 0 (5::nat) (world (<))) 0),
                      sys (push True 0 (5::nat) (world (<)))) = Inl AssertionFailed" by blast+
  ultimately show ?thesis using a b c d by blast
qed

text \<open>
  The claim has \<^verbatim>\<open>top()\<close> and \<^verbatim>\<open>pop()\<close> on an empty heap fail an assertion in a debug
  build. On a freshly constructed heap neither ends in a failed assertion: both read
  through the null root.
\<close>

theorem top_pop_on_empty_counterexample:
  "empty' (SkewHeap ((<) :: nat \<Rightarrow> nat \<Rightarrow> bool)) \<and>
   top (SkewHeap ((<) :: nat \<Rightarrow> nat \<Rightarrow> bool)) \<noteq> Inl AssertionFailed \<and>
   top (SkewHeap ((<) :: nat \<Rightarrow> nat \<Rightarrow> bool)) = Inl NullDeref \<and>
   pop True 0 (world ((<) :: nat \<Rightarrow> nat \<Rightarrow> bool)) \<noteq> Inl AssertionFailed \<and>
   pop False 0 (world ((<) :: nat \<Rightarrow> nat \<Rightarrow> bool)) \<noteq> Inl AssertionFailed"
  by (simp add: empty'_def top_def pop_def SkewHeap_def world_def)

section \<open>Merging pool-backed heaps\<close>

text \<open>
  C5 at a concrete program on two pool-backed heaps: \<^verbatim>\<open>b.push(7); a.merge(b); a.pop();\<close>
  with \<open>a\<close> at index 0 and \<open>b\<close> at index 1, and the same with \<^verbatim>\<open>a.clear()\<close> in place of
  \<^verbatim>\<open>a.pop()\<close>. The node is constructed in slot 4095 of the
  block of \<open>b\<close>'s pool. After the \<^verbatim>\<open>pop\<close> (or \<^verbatim>\<open>clear\<close>) that slot is on the free list of \<open>a\<close>'s pool, which
  owns no block at all, and not on the free list of \<open>b\<close>'s pool; \<open>b\<close>'s pool still counts one
  live object, the live count of \<open>a\<close>'s pool has wrapped below zero, and destroying
  either heap (both are empty) in a debug build fails the assertion of \<^verbatim>\<open>release_all\<close>.
\<close>

theorem migrated_slot_returns_to_destination_pool:
  "(case run True [Push 1 (7::nat), Merge 0 1, Pop 0] (world (<)) of
      Inl e \<Rightarrow> False
    | Inr w \<Rightarrow>
        in_blocks (blocks' (pool' (heaps w 1))) 4095 \<and>
        \<not> in_blocks (blocks' (pool' (heaps w 0))) 4095 \<and>
        free' (pool' (heaps w 0)) = [4095] \<and>
        4095 \<notin> set (free' (pool' (heaps w 1))) \<and>
        live (pool' (heaps w 1)) = 1 \<and>
        live (pool' (heaps w 0)) = SIZE_MAX \<and>
        empty' (heaps w 0) \<and> empty' (heaps w 1) \<and>
        SkewHeap_dtor False True 1 w = Inl AssertionFailed \<and>
        SkewHeap_dtor False True 0 w = Inl AssertionFailed) \<and>
   (case run True [Push 1 (7::nat), Merge 0 1, Clear 0] (world (<)) of
      Inl e \<Rightarrow> False
    | Inr w \<Rightarrow>
        in_blocks (blocks' (pool' (heaps w 1))) 4095 \<and>
        \<not> in_blocks (blocks' (pool' (heaps w 0))) 4095 \<and>
        free' (pool' (heaps w 0)) = [4095] \<and>
        4095 \<notin> set (free' (pool' (heaps w 1))) \<and>
        live (pool' (heaps w 1)) = 1 \<and>
        live (pool' (heaps w 0)) = SIZE_MAX \<and>
        SkewHeap_dtor False True 1 w = Inl AssertionFailed)"
  by (simp add: push_def make_node_def create_def grow_pos ObjectPool_def world_def SkewHeap_def
        merge_def pop_def Let_def dec_size_t_def butlast_upt_less SkewHeap_dtor_def clear_def
        release_all_def live_def in_blocks_def empty'_def SIZE_MAX_pos inc_size_t_less)

end
